theory Spec2Isabelle
  imports Main "HOL-Library.Word"
begin

section \<open>JavaScript strings and document identifiers\<close>

text \<open>
  A JavaScript string is a sequence of 16-bit code units. Source literals are written
  here as Isabelle strings and converted with \<open>js\<close>.
\<close>

type_synonym jsstring = "16 word list"

definition js :: "string \<Rightarrow> jsstring" where
  "js s = map of_char s"

definition slash :: "16 word" where
  "slash = 0x2F"

text \<open>
  \<open>String.prototype.split(sep)\<close> with a one-unit separator: the segments between the
  separators, at least one segment (the empty string splits into one empty segment).
\<close>

fun js_split :: "16 word \<Rightarrow> jsstring \<Rightarrow> jsstring list" where
  "js_split sep [] = [[]]"
| "js_split sep (c # cs) =
     (if c = sep then [] # js_split sep cs
      else (case js_split sep cs of
              [] \<Rightarrow> [[c]]
            | p # ps \<Rightarrow> (c # p) # ps))"

text \<open>\<open>Array.prototype.join(sep)\<close>: the empty array joins to the empty string.\<close>

fun js_join :: "16 word \<Rightarrow> jsstring list \<Rightarrow> jsstring" where
  "js_join sep [] = []"
| "js_join sep [p] = p"
| "js_join sep (p # q # ps) = p @ sep # js_join sep (q # ps)"

subsection \<open>encodeURIComponent\<close>

text \<open>
  The built-in follows ECMAScript's \<open>Encode\<close> with the unreserved set
  \<open>A-Z a-z 0-9 - _ . ! ~ * ' ( )\<close>: an unreserved unit is copied; any other unit is
  read as a code point (a surrogate pair as one code point), encoded in UTF-8, and each
  octet written as \<open>%XX\<close> with upper-case hexadecimal digits. A low surrogate with no
  high surrogate before it, or a high surrogate with no low one after it, throws
  \<open>URIError\<close>.
\<close>

datatype uri_error = URIError

definition uriUnescaped :: "16 word \<Rightarrow> bool" where
  "uriUnescaped c =
     (let n = unat c in
        (0x41 \<le> n \<and> n \<le> 0x5A) \<or> (0x61 \<le> n \<and> n \<le> 0x7A) \<or> (0x30 \<le> n \<and> n \<le> 0x39)
        \<or> n = 0x2D \<or> n = 0x5F \<or> n = 0x2E \<or> n = 0x21 \<or> n = 0x7E
        \<or> n = 0x2A \<or> n = 0x27 \<or> n = 0x28 \<or> n = 0x29)"

definition high_surrogate :: "16 word \<Rightarrow> bool" where
  "high_surrogate c = (0xD800 \<le> unat c \<and> unat c \<le> 0xDBFF)"

definition low_surrogate :: "16 word \<Rightarrow> bool" where
  "low_surrogate c = (0xDC00 \<le> unat c \<and> unat c \<le> 0xDFFF)"

definition pair_code_point :: "16 word \<Rightarrow> 16 word \<Rightarrow> nat" where
  "pair_code_point hi lo = (unat hi - 0xD800) * 0x400 + (unat lo - 0xDC00) + 0x10000"

definition utf8 :: "nat \<Rightarrow> nat list" where
  "utf8 v =
     (if v < 0x80 then [v]
      else if v < 0x800 then [0xC0 + v div 0x40, 0x80 + v mod 0x40]
      else if v < 0x10000 then
        [0xE0 + v div 0x1000, 0x80 + (v div 0x40) mod 0x40, 0x80 + v mod 0x40]
      else
        [0xF0 + v div 0x40000, 0x80 + (v div 0x1000) mod 0x40,
         0x80 + (v div 0x40) mod 0x40, 0x80 + v mod 0x40])"

definition hex_digit :: "nat \<Rightarrow> 16 word" where
  "hex_digit d = (if d < 10 then of_nat (0x30 + d) else of_nat (0x41 + (d - 10)))"

definition percent_octet :: "nat \<Rightarrow> jsstring" where
  "percent_octet b = [0x25, hex_digit (b div 16), hex_digit (b mod 16)]"

definition percent_encode :: "nat \<Rightarrow> jsstring" where
  "percent_encode v = concat (map percent_octet (utf8 v))"

fun encodeURIComponent :: "jsstring \<Rightarrow> uri_error + jsstring" where
  "encodeURIComponent [] = Inr []"
| "encodeURIComponent (c # cs) =
     (if uriUnescaped c then
        (case encodeURIComponent cs of Inl e \<Rightarrow> Inl e | Inr r \<Rightarrow> Inr (c # r))
      else if low_surrogate c then Inl URIError
      else if \<not> high_surrogate c then
        (case encodeURIComponent cs of
           Inl e \<Rightarrow> Inl e
         | Inr r \<Rightarrow> Inr (percent_encode (unat c) @ r))
      else
        (case cs of
           [] \<Rightarrow> Inl URIError
         | d # ds \<Rightarrow>
             if \<not> low_surrogate d then Inl URIError
             else (case encodeURIComponent ds of
                     Inl e \<Rightarrow> Inl e
                   | Inr r \<Rightarrow> Inr (percent_encode (pair_code_point c d) @ r))))"

subsection \<open>encodeDocId\<close>

text \<open>
  \<^verbatim>\<open>
  function encodeDocId(docID) {
    var parts = docID.split("/");
    if (parts[0] == "_design") {
      parts.shift();
      return "_design/" + encodeURIComponent(parts.join('/'));
    }
    return encodeURIComponent(docID);
  }
  \<close>
  \<open>parts[0]\<close> of an empty array would be \<open>undefined\<close>, which is not equal to a string.
\<close>

definition encodeDocId :: "jsstring \<Rightarrow> uri_error + jsstring" where
  "encodeDocId docID =
     (case js_split slash docID of
        [] \<Rightarrow> encodeURIComponent docID
      | p # ps \<Rightarrow>
          if p = js ''_design'' then
            (case encodeURIComponent (js_join slash ps) of
               Inl e \<Rightarrow> Inl e
             | Inr r \<Rightarrow> Inr (js ''_design/'' @ r))
          else encodeURIComponent docID)"

section \<open>JavaScript values\<close>

text \<open>
  The values that cross the library's interface: what \<open>JSON.parse\<close> returns, what a
  caller passes as a cursor or a batch count, and \<open>undefined\<close>. Numbers are the
  integers (sequence numbers, status codes, delays and counts are integers; a double
  holds every integer below \<open>2^53\<close> exactly). An object is the list of its properties.
\<close>

datatype jsval =
    JUndefined
  | JNull
  | JBool bool
  | JNum int
  | JStr string
  | JArr "jsval list"
  | JObj "(string \<times> jsval) list"

fun truthy :: "jsval \<Rightarrow> bool" where
  "truthy JUndefined = False"
| "truthy JNull = False"
| "truthy (JBool b) = b"
| "truthy (JNum n) = (n \<noteq> 0)"
| "truthy (JStr s) = (s \<noteq> [])"
| "truthy (JArr xs) = True"
| "truthy (JObj kvs) = True"

text \<open>What a callback or a statement of the library can throw.\<close>

datatype exn =
    TypeError
  | SyntaxError
  | DecodeFailure string \<comment> \<open>\<open>errorMessage + ': ' + e\<close>, \<open>e\<close> the error of \<open>JSON.parse\<close>\<close>
  | Failure string jsval \<comment> \<open>\<open>errorMessage + ": " + resp.reason\<close>\<close>
  | Thrown_by_caller \<comment> \<open>whatever a callback of the caller throws\<close>

text \<open>
  Reading a property \<open>v.k\<close>: a \<open>TypeError\<close> on \<open>undefined\<close> and \<open>null\<close>, the
  property's value on an object, \<open>length\<close> on an array or a string, and \<open>undefined\<close>
  for a property that is not there.
\<close>

fun js_member :: "jsval \<Rightarrow> string \<Rightarrow> jsval" where
  "js_member (JObj kvs) k = (case map_of kvs k of None \<Rightarrow> JUndefined | Some v \<Rightarrow> v)"
| "js_member (JArr xs) k = (if k = ''length'' then JNum (int (length xs)) else JUndefined)"
| "js_member (JStr s) k = (if k = ''length'' then JNum (int (length s)) else JUndefined)"
| "js_member v k = JUndefined"

fun js_get :: "jsval \<Rightarrow> string \<Rightarrow> exn + jsval" where
  "js_get JUndefined k = Inl TypeError"
| "js_get JNull k = Inl TypeError"
| "js_get v k = Inr (js_member v k)"

text \<open>\<open>resp && resp.k || dflt\<close>, as the error branch of \<open>ajax\<close> writes it.\<close>

definition member_or :: "jsval \<Rightarrow> string \<Rightarrow> jsval \<Rightarrow> jsval" where
  "member_or resp k dflt =
     (if truthy resp \<and> truthy (js_member resp k) then js_member resp k else dflt)"

text \<open>
  The retry delay is a double that starts at 100 and is only ever doubled. Doubling a
  double is exact as long as the result stays below \<open>2^1024\<close>; the product that
  reaches \<open>2^1024\<close> is \<open>Infinity\<close>, and twice \<open>Infinity\<close> is \<open>Infinity\<close>.
\<close>

datatype number =
    Finite int
  | Infinity

fun twice :: "number \<Rightarrow> number" where
  "twice (Finite x) = (if x * 2 < 2 ^ 1024 then Finite (x * 2) else Infinity)"
| "twice Infinity = Infinity"

section \<open>The request helper \<open>ajax\<close>\<close>

text \<open>
  A completed request, as the \<open>complete\<close> callback receives it: the HTTP status and the
  outcome of \<open>JSON.parse(req.responseText)\<close>, \<open>None\<close> when that call throws
  (the body is not valid JSON).
\<close>

record xhr =
  status :: int
  responseJSON :: "jsval option"

text \<open>
  The \<open>options\<close> object of an operation. A callback field is \<open>True\<close> when the caller
  supplied that callback (the code tests \<open>if (options.error)\<close> and so on);
  \<open>successStatus\<close> and \<open>heartbeat\<close> are \<open>None\<close> when the caller left them out.
  Calling a supplied callback is recorded as a \<open>call\<close>, in the order the calls are made.
  The elapsed time that \<open>ajax\<close> passes as a last argument is left out.
\<close>

record couch_options =
  successStatus :: "int option"
  success :: bool
  error :: bool
  beforeSuccess :: bool
  ajaxStart :: bool
  heartbeat :: "jsval option"

datatype call =
    Call_ajaxStart jsval \<comment> \<open>\<open>options.ajaxStart(resp)\<close>\<close>
  | Call_beforeSuccess jsval \<comment> \<open>\<open>options.beforeSuccess(req, resp)\<close>\<close>
  | Call_success jsval \<comment> \<open>\<open>options.success(resp)\<close>\<close>
  | Call_error_decode int \<comment> \<open>\<open>options.error(req.status, req, e)\<close>\<close>
  | Call_error int jsval jsval \<comment> \<open>\<open>options.error(req.status, error, reason)\<close>\<close>

text \<open>\<open>options = $.extend({successStatus: 200}, options)\<close>\<close>

definition expected_status :: "couch_options \<Rightarrow> int" where
  "expected_status opts = (case successStatus opts of None \<Rightarrow> 200 | Some n \<Rightarrow> n)"

text \<open>
  The \<open>complete\<close> callback that \<open>ajax\<close> builds:
  \<^verbatim>\<open>
  complete: function(req) {
    try {
      var resp = JSON.parse(req.responseText);
    } catch(e) {
      if (options.error) {
        options.error(req.status, req, e);
      } else {
        throw errorMessage + ': ' + e;
      }
      return;
    }
    if (options.ajaxStart) {
      options.ajaxStart(resp);
    }
    if (req.status == options.successStatus) {
      if (options.beforeSuccess) options.beforeSuccess(req, resp, reqDuration);
      if (options.success) options.success(resp, reqDuration);
    } else if (options.error) {
      options.error(req.status, resp && resp.error ||
                    errorMessage, resp && resp.reason || "no response",
                    reqDuration);
    } else {
      throw errorMessage + ": " + resp.reason;
    }
  }
  \<close>
  The result is the calls made and the exception thrown, if any.
\<close>

type_synonym complete_handler = "xhr \<Rightarrow> call list \<times> exn option"

definition ajax_complete :: "couch_options \<Rightarrow> string \<Rightarrow> complete_handler" where
  "ajax_complete opts errorMessage req =
     (case responseJSON req of
        None \<Rightarrow>
          if error opts then ([Call_error_decode (status req)], None)
          else ([], Some (DecodeFailure errorMessage))
      | Some resp \<Rightarrow>
          (let started = (if ajaxStart opts then [Call_ajaxStart resp] else []) in
           if status req = expected_status opts then
             (started
                @ (if beforeSuccess opts then [Call_beforeSuccess resp] else [])
                @ (if success opts then [Call_success resp] else []), None)
           else if error opts then
             (started
                @ [Call_error (status req)
                     (member_or resp ''error'' (JStr errorMessage))
                     (member_or resp ''reason'' (JStr ''no response''))], None)
           else
             (case js_get resp ''reason'' of
                Inl e \<Rightarrow> (started, Some e)
              | Inr r \<Rightarrow> (started, Some (Failure errorMessage r)))))"

text \<open>
  \<open>ajax(obj, options, errorMessage, ajaxOptions)\<close> hands \<open>$.ajax\<close> the settings
  \<open>$.extend($.extend({..., complete: ...}, obj), ajaxOptions)\<close>: a \<open>complete\<close> of \<open>obj\<close>
  replaces the helper's own, and a \<open>complete\<close> of \<open>ajaxOptions\<close> replaces both. The
  function gives the \<open>complete\<close> callback of the request that is sent; its first and
  last arguments are the \<open>complete\<close> fields of \<open>obj\<close> and of \<open>ajaxOptions\<close>.
\<close>

definition ajax ::
  "complete_handler option \<Rightarrow> couch_options \<Rightarrow> string \<Rightarrow> complete_handler option
     \<Rightarrow> complete_handler" where
  "ajax obj_complete opts errorMessage ajaxOptions_complete =
     (case ajaxOptions_complete of
        Some h \<Rightarrow> h
      | None \<Rightarrow>
          (case obj_complete of
             Some h \<Rightarrow> h
           | None \<Rightarrow> ajax_complete opts errorMessage))"

text \<open>
  \<open>copyDoc\<close> is the one operation of the library that passes its own \<open>complete\<close>:
  \<^verbatim>\<open>
  copyDoc: function(docId, options, ajaxOptions) {
    ajaxOptions = $.extend(ajaxOptions, {
      complete: function(req) {
        var resp = JSON.parse(req.responseText);
        if (req.status == 201) {
          if (options.success) options.success(resp);
        } else if (options.error) {
          options.error(req.status, resp.error, resp.reason);
        } else {
          throw "The document could not be copied: " + resp.reason;
        }
      }
    });
    ajax({type: "COPY", url: this.uri + encodeDocId(docId)},
      options, "The document could not be copied", ajaxOptions);
  }
  \<close>
\<close>

definition copyDoc_complete :: "couch_options \<Rightarrow> complete_handler" where
  "copyDoc_complete opts req =
     (case responseJSON req of
        None \<Rightarrow> ([], Some SyntaxError)
      | Some resp \<Rightarrow>
          if status req = 201 then
            ((if success opts then [Call_success resp] else []), None)
          else if error opts then
            (case js_get resp ''error'' of
               Inl e \<Rightarrow> ([], Some e)
             | Inr err \<Rightarrow> ([Call_error (status req) err (js_member resp ''reason'')], None))
          else
            (case js_get resp ''reason'' of
               Inl e \<Rightarrow> ([], Some e)
             | Inr r \<Rightarrow> ([], Some (Failure ''The document could not be copied'' r))))"

definition copyDoc :: "couch_options \<Rightarrow> complete_handler" where
  "copyDoc opts =
     ajax None opts ''The document could not be copied'' (Some (copyDoc_complete opts))"

section \<open>The changes feed\<close>

text \<open>
  \<open>changes(since, options)\<close> keeps its state in the variables of its closure:
  \<open>since\<close>, \<open>options\<close>, \<open>timeout\<close>, \<open>active\<close> and \<open>listeners\<close>, with \<open>uri\<close> for
  \<open>db.uri\<close>. A listener is a caller's function; it is named by a number. The record holds
  one thing more, which is the browser's and not the code's: the requests and timers
  that have been started and have not completed yet.
\<close>

type_synonym listener = nat

datatype target =
    Info \<comment> \<open>\<open>db.info\<close>: GET of \<open>db.uri\<close>\<close>
  | Changes jsval jsval \<comment> \<open>GET of \<open>_changes\<close>, \<open>feed=longpoll\<close>, with \<open>heartbeat\<close> and \<open>since\<close>\<close>

datatype pending =
    Request target
  | Timer number \<comment> \<open>\<open>setTimeout(getChangesSince, delay)\<close>\<close>

record feed =
  uri :: string
  since :: jsval
  options :: couch_options
  timeout :: number
  active :: bool
  listeners :: "listener list"
  outstanding :: "pending list"

text \<open>
  A listener runs with the handle in its reach: before it returns it may call \<open>stop()\<close>
  and \<open>onChange(fun)\<close> on it, and it may throw, which ends it at once. A hook of the
  caller (\<open>ajaxStart\<close>, \<open>beforeSuccess\<close>) runs before the handlers of the
  subscription; a call it makes on the handle has the effect of the same call made just
  before the request completes. A hook may throw as well: the completion of a request
  in which one does is an event of its own, \<open>Ev_hook_throws\<close> below.
\<close>

datatype handle_call =
    Stop
  | OnChange listener
  | Throw

text \<open>What can be observed of a subscription, in the order it happens.\<close>

datatype obs =
    Sent target \<comment> \<open>a request handed to \<open>ajax\<close>\<close>
  | SetTimeout number
  | Invoked listener jsval \<comment> \<open>a listener called with a payload\<close>
  | Called handle_call \<comment> \<open>\<open>stop()\<close> or \<open>onChange(fun)\<close> called on the handle\<close>
  | Hook call \<comment> \<open>the caller's \<open>ajaxStart\<close> or \<open>beforeSuccess\<close> called\<close>
  | Uncaught exn

definition send :: "target \<Rightarrow> feed \<Rightarrow> obs list \<times> feed" where
  "send t w = ([Sent t], w\<lparr>outstanding := outstanding w @ [Request t]\<rparr>)"

text \<open>
  \<^verbatim>\<open>
  onChange : function(fun) { listeners.push(fun); },
  stop : function() { active = false; }
  \<close>
\<close>

definition onChange :: "listener \<Rightarrow> feed \<Rightarrow> feed" where
  "onChange fn w = w\<lparr>listeners := listeners w @ [fn]\<rparr>"

definition stop :: "feed \<Rightarrow> feed" where
  "stop w = w\<lparr>active := False\<rparr>"

text \<open>
  What one listener does, from the first thing to the last. The result says, besides
  the history and the state, whether the listener threw; what stands after a \<open>Throw\<close>
  is not done.
\<close>

fun react :: "handle_call list \<Rightarrow> feed \<Rightarrow> obs list \<times> bool \<times> feed" where
  "react [] w = ([], False, w)"
| "react (Stop # cs) w =
     (let (t, thrown, w') = react cs (stop w) in (Called Stop # t, thrown, w'))"
| "react (OnChange fn # cs) w =
     (let (t, thrown, w') = react cs (onChange fn w) in (Called (OnChange fn) # t, thrown, w'))"
| "react (Throw # cs) w = ([], True, w)"

text \<open>
  \<^verbatim>\<open>
  function triggerListeners(resp) {
    $.each(listeners, function() {
      this(resp);
    });
  };
  \<close>
  \<open>$.each\<close> walks the array by index and reads its length again at every step; the
  callback returns nothing, so the walk is never cut short by a result. Nothing here
  catches an exception: a listener that throws ends the walk, and the exception goes on
  to the caller of \<open>triggerListeners\<close>. The second argument lists what the listeners
  called do: its first element for the first listener called, and so on; a listener
  beyond the list does nothing and returns. The result says whether a listener threw.
\<close>

function triggerListeners ::
  "jsval \<Rightarrow> handle_call list list \<Rightarrow> nat \<Rightarrow> feed \<Rightarrow> obs list \<times> bool \<times> feed" where
  "triggerListeners resp [] i w =
     (if i < length (listeners w) then
        (let (t, thrown, w') = triggerListeners resp [] (Suc i) w
         in (Invoked (listeners w ! i) resp # t, thrown, w'))
      else ([], False, w))"
| "triggerListeners resp (r # rs) i w =
     (if i < length (listeners w) then
        (let (t1, thrown1, w1) = react r w in
         if thrown1 then (Invoked (listeners w ! i) resp # t1, True, w1)
         else
           (let (t2, thrown2, w2) = triggerListeners resp rs (Suc i) w1
            in (Invoked (listeners w ! i) resp # t1 @ t2, thrown2, w2)))
      else ([], False, w))"
  by pat_completeness auto
termination
  by (relation "measures [\<lambda>(resp, rs, i, w). length rs,
                          \<lambda>(resp, rs, i, w). length (listeners w) - i]") auto

declare triggerListeners.simps [simp del]

text \<open>
  \<^verbatim>\<open>
  function getChangesSince() {
    var opts = $.extend({heartbeat : 10 * 1000}, options, {
      feed : "longpoll",
      since : since
    });
    ajax(
      {url: db.uri + "_changes"+encodeOptions(opts)},
      options,
      "Error connecting to "+db.uri+"/_changes."
    );
  }
  \<close>
\<close>

definition getChangesSince :: "feed \<Rightarrow> obs list \<times> feed" where
  "getChangesSince w =
     send (Changes (case heartbeat (options w) of None \<Rightarrow> JNum 10000 | Some h \<Rightarrow> h)
                   (since w)) w"

text \<open>
  \<^verbatim>\<open>
  options.success = function(resp) {
    timeout = 100;
    if (active) {
      since = resp.last_seq;
      triggerListeners(resp);
      getChangesSince();
    };
  };
  options.error = function() {
    if (active) {
      setTimeout(getChangesSince, timeout);
      timeout = timeout * 2;
    }
  };
  \<close>
\<close>

definition options_success ::
  "jsval \<Rightarrow> handle_call list list \<Rightarrow> feed \<Rightarrow> obs list \<times> feed" where
  "options_success resp rs w =
     (let w0 = w\<lparr>timeout := Finite 100\<rparr> in
      if active w0 then
        (case js_get resp ''last_seq'' of
           Inl e \<Rightarrow> ([Uncaught e], w0)
         | Inr seq \<Rightarrow>
             (let (t1, thrown, w1) = triggerListeners resp rs 0 (w0\<lparr>since := seq\<rparr>) in
              if thrown then (t1 @ [Uncaught Thrown_by_caller], w1)
              else (let (t2, w2) = getChangesSince w1 in (t1 @ t2, w2))))
      else ([], w0))"

definition options_error :: "feed \<Rightarrow> obs list \<times> feed" where
  "options_error w =
     (if active w then
        ([SetTimeout (timeout w)],
         w\<lparr>outstanding := outstanding w @ [Timer (timeout w)],
           timeout := twice (timeout w)\<rparr>)
      else ([], w))"

text \<open>
  \<^verbatim>\<open>
  changes: function(since, options) {
    options = options || {};
    var timeout = 100, db = this, active = true,
      listeners = [],
      promise = { onChange : ..., stop : ... };
    ...
    if (since) {
      getChangesSince();
    } else {
      db.info({
        success : function(info) {
          since = info.update_seq;
          getChangesSince();
        }
      });
    }
    return promise;
  }
  \<close>
  The first argument is \<open>db.uri\<close>. An \<open>options\<close> that is left out is the record with
  nothing supplied.
\<close>

definition info_success :: "jsval \<Rightarrow> feed \<Rightarrow> obs list \<times> feed" where
  "info_success info w =
     (case js_get info ''update_seq'' of
        Inl e \<Rightarrow> ([Uncaught e], w)
      | Inr seq \<Rightarrow> getChangesSince (w\<lparr>since := seq\<rparr>))"

definition changes :: "string \<Rightarrow> jsval \<Rightarrow> couch_options \<Rightarrow> obs list \<times> feed" where
  "changes db_uri since0 opts =
     (let w = \<lparr>uri = db_uri, since = since0,
                options = opts\<lparr>success := True, error := True\<rparr>,
                timeout = Finite 100, active = True, listeners = [], outstanding = []\<rparr>
      in if truthy since0 then getChangesSince w else send Info w)"

subsection \<open>Completions and timers\<close>

text \<open>
  The request of \<open>db.info\<close> carries \<open>{success: ...}\<close> alone; a poll carries the
  subscription's \<open>options\<close>, whose \<open>success\<close> and \<open>error\<close> are the two handlers above.
  When a request completes, \<open>ajax_complete\<close> decides which callbacks are called, and
  each call runs the callback it names.
\<close>

definition info_options :: couch_options where
  "info_options = \<lparr>successStatus = None, success = True, error = False,
                    beforeSuccess = False, ajaxStart = False, heartbeat = None\<rparr>"

fun info_callback :: "call \<Rightarrow> feed \<Rightarrow> obs list \<times> feed" where
  "info_callback (Call_success info) w = info_success info w"
| "info_callback c w = ([], w)"

fun poll_callback :: "handle_call list list \<Rightarrow> call \<Rightarrow> feed \<Rightarrow> obs list \<times> feed" where
  "poll_callback rs (Call_success resp) w = options_success resp rs w"
| "poll_callback rs (Call_error st e r) w = options_error w"
| "poll_callback rs (Call_error_decode st) w = options_error w"
| "poll_callback rs c w = ([Hook c], w)"

fun run_calls ::
  "(call \<Rightarrow> feed \<Rightarrow> obs list \<times> feed) \<Rightarrow> call list \<Rightarrow> feed \<Rightarrow> obs list \<times> feed" where
  "run_calls f [] w = ([], w)"
| "run_calls f (c # cs) w =
     (let (t, w') = f c w; (t', w'') = run_calls f cs w' in (t @ t', w''))"

definition uncaught :: "exn option \<Rightarrow> obs list" where
  "uncaught ex = (case ex of None \<Rightarrow> [] | Some e \<Rightarrow> [Uncaught e])"

definition complete_request ::
  "target \<Rightarrow> xhr \<Rightarrow> handle_call list list \<Rightarrow> feed \<Rightarrow> obs list \<times> feed" where
  "complete_request t req rs w =
     (case t of
        Info \<Rightarrow>
          (let (calls, ex) =
                 ajax_complete info_options ''Database information could not be retrieved'' req;
               (tr, w') = run_calls info_callback calls w
           in (tr @ uncaught ex, w'))
      | Changes hb c \<Rightarrow>
          (let (calls, ex) =
                 ajax_complete (options w) (''Error connecting to '' @ uri w @ ''/_changes.'') req;
               (tr, w') = run_calls (poll_callback rs) calls w
           in (tr @ uncaught ex, w')))"

text \<open>
  A hook that throws ends the \<open>complete\<close> callback there: \<open>ajax\<close> calls the hooks
  with no \<open>try\<close> around them, so what the callback would have done after the hook,
  the call of \<open>options.success\<close> or \<open>options.error\<close> included, is not done. The hooks
  of a completion are called first and in order; \<open>k\<close> is the number of hooks that
  return before one throws. The request of \<open>db.info\<close> has no hook.
\<close>

fun is_hook :: "call \<Rightarrow> bool" where
  "is_hook (Call_ajaxStart resp) = True"
| "is_hook (Call_beforeSuccess resp) = True"
| "is_hook c = False"

definition hook_throws :: "target \<Rightarrow> xhr \<Rightarrow> nat \<Rightarrow> feed \<Rightarrow> (obs list \<times> feed) option" where
  "hook_throws t req k w =
     (let calls =
            (case t of
               Info \<Rightarrow>
                 fst (ajax_complete info_options
                        ''Database information could not be retrieved'' req)
             | Changes hb c \<Rightarrow>
                 fst (ajax_complete (options w)
                        (''Error connecting to '' @ uri w @ ''/_changes.'') req));
          hooks = takeWhile is_hook calls
      in if k < length hooks
         then Some (map Hook (take (Suc k) hooks) @ [Uncaught Thrown_by_caller], w)
         else None)"

text \<open>
  What happens to a subscription from outside: the caller calls \<open>stop()\<close> or
  \<open>onChange(fun)\<close> on the handle, a request that is outstanding completes (with what the
  listeners then do to the handle, or with a hook that throws), or a timer that is
  outstanding fires. An event that names no outstanding request or timer, or a hook
  that is not called, cannot happen: \<open>None\<close>.
\<close>

datatype event =
    Ev_stop
  | Ev_onChange listener
  | Ev_complete nat xhr "handle_call list list"
  | Ev_fire nat
  | Ev_hook_throws nat xhr nat

definition remove_nth :: "nat \<Rightarrow> 'a list \<Rightarrow> 'a list" where
  "remove_nth i xs = take i xs @ drop (Suc i) xs"

fun step :: "event \<Rightarrow> feed \<Rightarrow> (obs list \<times> feed) option" where
  "step Ev_stop w = Some ([Called Stop], stop w)"
| "step (Ev_onChange fn) w = Some ([Called (OnChange fn)], onChange fn w)"
| "step (Ev_complete i req rs) w =
     (if i < length (outstanding w) then
        (case outstanding w ! i of
           Request t \<Rightarrow>
             Some (complete_request t req rs
                     (w\<lparr>outstanding := remove_nth i (outstanding w)\<rparr>))
         | Timer d \<Rightarrow> None)
      else None)"
| "step (Ev_fire i) w =
     (if i < length (outstanding w) then
        (case outstanding w ! i of
           Request t \<Rightarrow> None
         | Timer d \<Rightarrow>
             Some (getChangesSince (w\<lparr>outstanding := remove_nth i (outstanding w)\<rparr>)))
      else None)"
| "step (Ev_hook_throws i req k) w =
     (if i < length (outstanding w) then
        (case outstanding w ! i of
           Request t \<Rightarrow>
             hook_throws t req k (w\<lparr>outstanding := remove_nth i (outstanding w)\<rparr>)
         | Timer d \<Rightarrow> None)
      else None)"

fun run :: "event list \<Rightarrow> feed \<Rightarrow> (obs list \<times> feed) option" where
  "run [] w = Some ([], w)"
| "run (e # es) w =
     (case step e w of
        None \<Rightarrow> None
      | Some (t, w') \<Rightarrow>
          (case run es w' of
             None \<Rightarrow> None
           | Some (t', w'') \<Rightarrow> Some (t @ t', w'')))"

section \<open>The UUID cache\<close>

text \<open>
  \<open>var uuidCache = []\<close> is one variable for the whole page.
  \<open>Array.prototype.shift\<close> removes and returns the first element, \<open>undefined\<close> on an
  empty array; a value that is no array has no \<open>shift\<close> to call.
\<close>

fun shift :: "jsval \<Rightarrow> (exn + jsval) \<times> jsval" where
  "shift (JArr []) = (Inr JUndefined, JArr [])"
| "shift (JArr (x # xs)) = (Inr x, JArr xs)"
| "shift v = (Inl TypeError, v)"

text \<open>
  \<^verbatim>\<open>
  newUUID: function(cacheNum) {
    if (cacheNum === undefined) {
      cacheNum = 1;
    }
    if (!uuidCache.length) {
      ajax({url: this.urlPrefix + "/_uuids", data: {count: cacheNum}, async:
            false}, {
          success: function(resp) {
            uuidCache = resp.uuids;
          }
        },
        "Failed to retrieve UUID batch."
      );
    }
    return uuidCache.shift();
  }
  \<close>
  The request is synchronous: \<open>reply\<close> is the server's answer to it, should it be sent.
  The \<open>complete\<close> callback runs in the event of the request, while \<open>ajax\<close> is still
  sending, so it has run when \<open>ajax\<close> returns. An exception thrown in that callback
  does not reach \<open>newUUID\<close>: the browser reports it, and \<open>newUUID\<close> goes on to
  \<open>return uuidCache.shift()\<close>. An exception of \<open>newUUID\<close>'s own statements (reading
  \<open>length\<close> of, or calling \<open>shift\<close> on, a cache that is no array) does end the call.
  The result is what the call returns or throws, the cache afterwards, the \<open>count\<close> of
  every request sent, and the exceptions that were reported.
\<close>

definition uuid_options :: couch_options where
  "uuid_options = \<lparr>successStatus = None, success = True, error = False,
                    beforeSuccess = False, ajaxStart = False, heartbeat = None\<rparr>"

fun uuid_callback :: "call \<Rightarrow> jsval \<Rightarrow> exn + jsval" where
  "uuid_callback (Call_success resp) uuidCache = js_get resp ''uuids''"
| "uuid_callback c uuidCache = Inr uuidCache"

fun uuid_calls :: "call list \<Rightarrow> jsval \<Rightarrow> exn + jsval" where
  "uuid_calls [] uuidCache = Inr uuidCache"
| "uuid_calls (c # cs) uuidCache =
     (case uuid_callback c uuidCache of
        Inl e \<Rightarrow> Inl e
      | Inr uuidCache' \<Rightarrow> uuid_calls cs uuidCache')"

definition newUUID ::
  "jsval \<Rightarrow> xhr \<Rightarrow> jsval \<Rightarrow> (exn + jsval) \<times> jsval \<times> jsval list \<times> exn list" where
  "newUUID cacheNum reply uuidCache =
     (let count = (if cacheNum = JUndefined then JNum 1 else cacheNum) in
      case js_get uuidCache ''length'' of
        Inl e \<Rightarrow> (Inl e, uuidCache, [], [])
      | Inr len \<Rightarrow>
          if \<not> truthy len then
            (case ajax_complete uuid_options ''Failed to retrieve UUID batch.'' reply of
               (calls, ex) \<Rightarrow>
                 (case uuid_calls calls uuidCache of
                    Inl e \<Rightarrow>
                      (case shift uuidCache of (r, rest) \<Rightarrow> (r, rest, [count], [e]))
                  | Inr fetched \<Rightarrow>
                      (case shift fetched of
                         (r, rest) \<Rightarrow>
                           (r, rest, [count], (case ex of None \<Rightarrow> [] | Some e \<Rightarrow> [e])))))
          else (case shift uuidCache of (r, rest) \<Rightarrow> (r, rest, [], [])))"

section \<open>bulkRemove\<close>

text \<open>
  \<^verbatim>\<open>
  bulkRemove: function(docs, options){
    docs.docs = $.each(
      docs.docs, function(i, doc){
        doc._deleted = true;
      }
    );
    $.extend(options, {successStatus: 201});
    ajax({
        type: "POST",
        url: this.uri + "_bulk_docs" + encodeOptions(options),
        data: toJSON(docs)
      },
      options,
      "The documents could not be deleted"
    );
  }
  \<close>
  The documents are the caller's objects, so they live in a store and \<open>docs.docs\<close> is
  the list of their addresses; one object may stand in the list twice. \<open>$.each\<close>
  returns the array it walked. The result is the store when \<open>bulkRemove\<close> returns, the
  caller's \<open>options\<close> as \<open>$.extend\<close> leaves them, and the documents as \<open>toJSON\<close> wrote
  them into the request.
\<close>

type_synonym ref = nat

type_synonym store = "ref \<Rightarrow> (string \<rightharpoonup> jsval)"

definition set_deleted :: "ref \<Rightarrow> store \<Rightarrow> store" where
  "set_deleted doc h = h(doc := (h doc)(''_deleted'' \<mapsto> JBool True))"

definition bulkRemove ::
  "ref list \<Rightarrow> couch_options \<Rightarrow> store \<Rightarrow> store \<times> couch_options \<times> (string \<rightharpoonup> jsval) list" where
  "bulkRemove docs opts h =
     (let h' = fold set_deleted docs h;
          opts' = opts\<lparr>successStatus := Some 201\<rparr>
      in (h', opts', map h' docs))"

text \<open>
  The request completes later, with any answer; the callbacks that \<open>ajax\<close> then calls
  are the caller's, and the library itself does not touch the documents again.
\<close>

definition bulkRemove_completed ::
  "ref list \<Rightarrow> couch_options \<Rightarrow> store \<Rightarrow> xhr \<Rightarrow> store \<times> call list \<times> exn option" where
  "bulkRemove_completed docs opts h req =
     (case bulkRemove docs opts h of
        (h', opts', body) \<Rightarrow>
          (case ajax_complete opts' ''The documents could not be deleted'' req of
             (calls, ex) \<Rightarrow> (h', calls, ex)))"

section \<open>Reading a subscription's history\<close>

text \<open>
  The listener calls, the requests, and the requests with the timers, of a history,
  each in the order of the history.
\<close>

fun invocations :: "obs list \<Rightarrow> (listener \<times> jsval) list" where
  "invocations [] = []"
| "invocations (Invoked l p # t) = (l, p) # invocations t"
| "invocations (x # t) = invocations t"

fun requests :: "obs list \<Rightarrow> target list" where
  "requests [] = []"
| "requests (Sent r # t) = r # requests t"
| "requests (x # t) = requests t"

fun schedule :: "obs list \<Rightarrow> obs list" where
  "schedule [] = []"
| "schedule (Sent r # t) = Sent r # schedule t"
| "schedule (SetTimeout d # t) = SetTimeout d # schedule t"
| "schedule (x # t) = schedule t"

text \<open>The hooks of the caller that \<open>ajax\<close> calls before \<open>success\<close> or \<open>error\<close>.\<close>

definition hooks_before :: "couch_options \<Rightarrow> jsval \<Rightarrow> bool \<Rightarrow> obs list" where
  "hooks_before opts resp ok =
     (if ajaxStart opts then [Hook (Call_ajaxStart resp)] else [])
     @ (if ok \<and> beforeSuccess opts then [Hook (Call_beforeSuccess resp)] else [])"

text \<open>The poll that \<open>getChangesSince\<close> would send now.\<close>

definition poll_target :: "feed \<Rightarrow> target" where
  "poll_target w =
     Changes (case heartbeat (options w) of None \<Rightarrow> JNum 10000 | Some h \<Rightarrow> h) (since w)"

text \<open>
  A poll fails when its body is not JSON or its status is not the expected one: the
  two ways in which \<open>ajax\<close> calls \<open>options.error\<close>.
\<close>

definition poll_fails :: "feed \<Rightarrow> xhr \<Rightarrow> bool" where
  "poll_fails w req =
     (responseJSON req = None \<or> status req \<noteq> expected_status (options w))"

text \<open>Consecutive failures: each poll fails, its timer fires, and the next poll fails.\<close>

fun retries :: "xhr list \<Rightarrow> event list" where
  "retries [] = []"
| "retries (r # rs) = Ev_complete 0 r [] # Ev_fire 0 # retries rs"

fun backoff :: "target \<Rightarrow> number \<Rightarrow> nat \<Rightarrow> obs list" where
  "backoff tg d 0 = []"
| "backoff tg d (Suc n) = SetTimeout d # Sent tg # backoff tg (twice d) n"

text \<open>
  What holds of every subscription between two events: \<open>changes\<close> has installed both
  handlers, and at most one request or timer is outstanding; an outstanding poll is
  the one \<open>getChangesSince\<close> sent with the current cursor.
\<close>

definition subscribed :: "feed \<Rightarrow> bool" where
  "subscribed w =
     (success (options w) \<and> error (options w)
      \<and> (outstanding w = [] \<or> outstanding w = [Request Info]
           \<or> (\<exists>d. outstanding w = [Timer d]) \<or> outstanding w = [Request (poll_target w)]))"

text \<open>The order of sequence numbers, on cursors that are numbers.\<close>

fun cursor_le :: "jsval \<Rightarrow> jsval \<Rightarrow> bool" where
  "cursor_le (JNum a) (JNum b) = (a \<le> b)"
| "cursor_le a b = False"

text \<open>
  For the examples: an \<open>options\<close> with nothing supplied, and the subscription
  \<open>db.changes(10)\<close> after \<open>onChange\<close> has been called with two listeners.
\<close>

definition no_options :: couch_options where
  "no_options = \<lparr>successStatus = None, success = False, error = False,
                  beforeSuccess = False, ajaxStart = False, heartbeat = None\<rparr>"

definition example_feed :: feed where
  "example_feed =
     \<lparr>uri = ''http://.touchdb./mydb/'', since = JNum 10,
      options = no_options\<lparr>success := True, error := True\<rparr>,
      timeout = Finite 100, active = True, listeners = [1, 2],
      outstanding = [Request (Changes (JNum 10000) (JNum 10))]\<rparr>"

section \<open>Document identifiers: the reserved segment\<close>

lemma js_split_not_Nil: "js_split sep s \<noteq> []"
  by (induction s) (auto split: list.splits)

lemma js_join_split: "js_join sep (js_split sep s) = s"
proof (induction s)
  case Nil
  show ?case by simp
next
  case (Cons c cs)
  obtain p ps where e: "js_split sep cs = p # ps"
    using js_split_not_Nil [of sep cs] by (cases "js_split sep cs") auto
  with Cons show ?case by (cases ps) auto
qed

lemma js_split_first: "js_split sep s = p # ps \<Longrightarrow> p = takeWhile (\<lambda>c. c \<noteq> sep) s"
  by (induction s arbitrary: p ps) (auto simp: js_split_not_Nil split: list.splits if_splits)

lemma js_split_rest: "js_split sep s = p # ps \<Longrightarrow> js_join sep ps = drop (Suc (length p)) s"
proof (induction s arbitrary: p ps)
  case Nil
  then show ?case by simp
next
  case (Cons c cs)
  show ?case
  proof (cases "c = sep")
    case True
    with Cons.prems have "p = []" "ps = js_split sep cs" by auto
    then show ?thesis by (simp add: js_join_split)
  next
    case False
    obtain q qs where e: "js_split sep cs = q # qs"
      using js_split_not_Nil [of sep cs] by (cases "js_split sep cs") auto
    with False Cons.prems have "p = c # q" "ps = qs" by auto
    with Cons.IH [OF e] show ?thesis by simp
  qed
qed

lemma length_design: "length (js ''_design'') = 7"
  by (simp add: js_def)

lemma encodeDocId_segments:
  "encodeDocId docID =
     (if takeWhile (\<lambda>c. c \<noteq> slash) docID = js ''_design''
      then (case encodeURIComponent (drop 8 docID) of
              Inl e \<Rightarrow> Inl e
            | Inr r \<Rightarrow> Inr (js ''_design/'' @ r))
      else encodeURIComponent docID)"
proof -
  obtain p ps where e: "js_split slash docID = p # ps"
    using js_split_not_Nil [of slash docID] by (cases "js_split slash docID") auto
  have p: "p = takeWhile (\<lambda>c. c \<noteq> slash) docID"
    using js_split_first [OF e] .
  have r: "js_join slash ps = drop (Suc (length p)) docID"
    using js_split_rest [OF e] .
  show ?thesis
  proof (cases "p = js ''_design''")
    case True
    with r have "js_join slash ps = drop 8 docID" by (simp add: length_design)
    with True e p show ?thesis by (simp add: encodeDocId_def)
  next
    case False
    with e p show ?thesis by (simp add: encodeDocId_def)
  qed
qed

lemma unescaped_not_slash: "uriUnescaped c \<Longrightarrow> c \<noteq> slash"
  by (auto simp: uriUnescaped_def slash_def)

lemma slash_escaped:
  "\<not> uriUnescaped slash" "\<not> low_surrogate slash" "\<not> high_surrogate slash"
  by (simp_all add: uriUnescaped_def slash_def low_surrogate_def high_surrogate_def)

lemma hex_digit_not_slash:
  assumes "d < 16"
  shows "hex_digit d \<noteq> slash"
proof -
  have "unat (hex_digit d) = (if d < 10 then 0x30 + d else 0x41 + (d - 10))"
    using assms by (simp add: hex_digit_def unat_of_nat del: of_nat_add of_nat_numeral)
  moreover have "unat slash = 0x2F" by (simp add: slash_def)
  ultimately show ?thesis by (auto split: if_splits)
qed

lemma percent_octet_no_slash:
  assumes "b < 256"
  shows "slash \<notin> set (percent_octet b)"
proof -
  from assms have "b div 16 < 16" "b mod 16 < 16" by auto
  then have "hex_digit (b div 16) \<noteq> slash" "hex_digit (b mod 16) \<noteq> slash"
    by (simp_all add: hex_digit_not_slash)
  moreover have "(0x25 :: 16 word) \<noteq> slash" by (simp add: slash_def)
  ultimately show ?thesis by (auto simp: percent_octet_def)
qed

lemma utf8_octets: "v < 0x110000 \<Longrightarrow> b \<in> set (utf8 v) \<Longrightarrow> b < 256"
  by (auto simp: utf8_def split: if_splits)

lemma percent_encode_no_slash: "v < 0x110000 \<Longrightarrow> slash \<notin> set (percent_encode v)"
  by (auto simp: percent_encode_def dest: utf8_octets percent_octet_no_slash)

lemma unat_unit_bound: "unat (c :: 16 word) < 0x110000"
proof -
  have "unat c < 2 ^ 16" using unsigned_less [of c] by simp
  then show ?thesis by simp
qed

lemma pair_code_point_bound:
  assumes "high_surrogate c" "low_surrogate d"
  shows "pair_code_point c d < 0x110000"
proof -
  from assms have "unat c - 0xD800 \<le> 0x3FF" "unat d - 0xDC00 \<le> 0x3FF"
    unfolding high_surrogate_def low_surrogate_def by arith+
  then have "(unat c - 0xD800) * 0x400 \<le> 0x3FF * 0x400" "unat d - 0xDC00 \<le> 0x3FF"
    by (simp_all only: mult_le_mono1)
  then show ?thesis by (simp add: pair_code_point_def)
qed

lemma encodeURIComponent_no_slash:
  "encodeURIComponent s = Inr r \<Longrightarrow> slash \<notin> set r"
proof (induction s arbitrary: r rule: encodeURIComponent.induct)
  case 1
  then show ?case by simp
next
  case (2 c cs)
  show ?case
  proof (cases "uriUnescaped c")
    case True
    with "2.prems" obtain r' where "encodeURIComponent cs = Inr r'" "r = c # r'"
      by (auto split: sum.splits)
    with "2.IH"(1) [OF True] True show ?thesis by (auto dest: unescaped_not_slash)
  next
    case esc: False
    show ?thesis
    proof (cases "high_surrogate c")
      case False
      with esc "2.prems" have nl: "\<not> low_surrogate c" by (auto split: if_splits)
      with esc False "2.prems" obtain r' where
        "encodeURIComponent cs = Inr r'" "r = percent_encode (unat c) @ r'"
        by (auto split: sum.splits)
      with "2.IH"(2) [OF esc nl] False percent_encode_no_slash [OF unat_unit_bound, of c]
      show ?thesis by auto
    next
      case True
      with esc "2.prems" have nl: "\<not> low_surrogate c" by (auto split: if_splits)
      with esc True "2.prems" obtain d ds r' where
        "cs = d # ds" "low_surrogate d" "encodeURIComponent ds = Inr r'"
        "r = percent_encode (pair_code_point c d) @ r'"
        by (auto split: sum.splits list.splits if_splits)
      with "2.IH"(3) [OF esc nl _ \<open>cs = d # ds\<close>] True
        percent_encode_no_slash [OF pair_code_point_bound, of c d]
      show ?thesis by auto
    qed
  qed
qed

lemma percent_encode_slash: "percent_encode (unat slash) = js ''%2F''"
  by (simp add: percent_encode_def slash_def utf8_def percent_octet_def hex_digit_def js_def)

lemma encodeURIComponent_separator:
  "encodeURIComponent (a @ slash # b) =
     (case encodeURIComponent a of
        Inl e \<Rightarrow> Inl e
      | Inr a' \<Rightarrow> (case encodeURIComponent b of
                    Inl e \<Rightarrow> Inl e
                  | Inr b' \<Rightarrow> Inr (a' @ js ''%2F'' @ b')))"
proof (induction a rule: encodeURIComponent.induct)
  case 1
  show ?case by (simp add: slash_escaped percent_encode_slash split: sum.splits)
next
  case (2 c cs)
  show ?case
  proof (cases "uriUnescaped c")
    case True
    with "2.IH"(1) show ?thesis by (simp split: sum.splits)
  next
    case esc: False
    show ?thesis
    proof (cases "low_surrogate c")
      case True
      with esc show ?thesis by simp
    next
      case nl: False
      show ?thesis
      proof (cases "high_surrogate c")
        case False
        with esc nl "2.IH"(2) show ?thesis by (simp split: sum.splits)
      next
        case True
        show ?thesis
        proof (cases cs)
          case Nil
          with esc nl True show ?thesis by (simp add: slash_escaped)
        next
          case (Cons d ds)
          with esc nl True "2.IH"(3) show ?thesis by (simp split: sum.splits)
        qed
      qed
    qed
  qed
qed

text \<open>
  Claim C9. The first segment of \<open>docID\<close> is what stands before its first \<open>/\<close>
  (all of it when it has none). When that segment is \<open>_design\<close>, the remainder is what
  follows the eight units of \<open>_design/\<close>, and \<open>encodeDocId\<close> returns \<open>_design/\<close>,
  unencoded, followed by the percent-encoding of the remainder; for every other
  identifier it returns the percent-encoding of the whole string. Percent-encoding
  writes each \<open>/\<close> of its argument as \<open>%2F\<close> and leaves no \<open>/\<close> in its result. Where
  the built-in throws \<open>URIError\<close> (a surrogate without its partner), \<open>encodeDocId\<close>
  throws it too.
\<close>

theorem encodeDocId_reserved_segment:
  "encodeDocId docID =
     (if takeWhile (\<lambda>c. c \<noteq> slash) docID = js ''_design''
      then (case encodeURIComponent (drop 8 docID) of
              Inl e \<Rightarrow> Inl e
            | Inr r \<Rightarrow> Inr (js ''_design/'' @ r))
      else encodeURIComponent docID)
   \<and> encodeURIComponent (a @ slash # b) =
       (case encodeURIComponent a of
          Inl e \<Rightarrow> Inl e
        | Inr a' \<Rightarrow> (case encodeURIComponent b of
                      Inl e \<Rightarrow> Inl e
                    | Inr b' \<Rightarrow> Inr (a' @ js ''%2F'' @ b')))
   \<and> (case encodeURIComponent a of Inl e \<Rightarrow> True | Inr r \<Rightarrow> slash \<notin> set r)"
proof (intro conjI)
  show "encodeDocId docID =
     (if takeWhile (\<lambda>c. c \<noteq> slash) docID = js ''_design''
      then (case encodeURIComponent (drop 8 docID) of
              Inl e \<Rightarrow> Inl e
            | Inr r \<Rightarrow> Inr (js ''_design/'' @ r))
      else encodeURIComponent docID)"
    by (rule encodeDocId_segments)
  show "encodeURIComponent (a @ slash # b) =
       (case encodeURIComponent a of
          Inl e \<Rightarrow> Inl e
        | Inr a' \<Rightarrow> (case encodeURIComponent b of
                      Inl e \<Rightarrow> Inl e
                    | Inr b' \<Rightarrow> Inr (a' @ js ''%2F'' @ b')))"
    by (rule encodeURIComponent_separator)
  show "case encodeURIComponent a of Inl e \<Rightarrow> True | Inr r \<Rightarrow> slash \<notin> set r"
    by (auto split: sum.splits dest: encodeURIComponent_no_slash)
qed

lemmas encode_eval =
  encodeDocId_def js_def slash_def uriUnescaped_def low_surrogate_def high_surrogate_def
  percent_encode_def utf8_def percent_octet_def hex_digit_def pair_code_point_def

theorem encodeDocId_reserved_segment_witness:
  "encodeDocId (js ''_design/a/b'') = Inr (js ''_design/a%2Fb'')
   \<and> encodeDocId (js ''a/b c'') = Inr (js ''a%2Fb%20c'')
   \<and> encodeURIComponent (js ''a'' @ slash # js ''b'') = Inr (js ''a%2Fb'')"
  using encodeDocId_reserved_segment [of "js ''_design/a/b''" "js ''a''" "js ''b''"]
    encodeDocId_reserved_segment [of "js ''a/b c''" "[]" "[]"]
  by (simp add: encode_eval)

section \<open>The request helper: a body that is not JSON\<close>

text \<open>
  Claim C7. The helper's \<open>complete\<close> callback is the callback of every request for
  which \<open>ajax\<close> is given no other (no \<open>complete\<close> in \<open>obj\<close> or in \<open>ajaxOptions\<close>). When
  the body is not valid JSON, it reports the failure through the caller's error
  handler and through nothing else, whatever the status, the expected one included;
  when the caller supplied no error handler it throws. The success handler is never
  called.
\<close>

theorem ajax_decode_failure:
  "responseJSON req = None \<Longrightarrow>
     ajax None opts errorMessage None req =
       (if error opts then ([Call_error_decode (status req)], None)
        else ([], Some (DecodeFailure errorMessage)))
     \<and> Call_success p \<notin> set (fst (ajax None opts errorMessage None req))"
  by (simp add: ajax_def ajax_complete_def)

theorem ajax_decode_failure_witness:
  "ajax None (no_options\<lparr>success := True, error := True\<rparr>)
        ''Server information could not be retrieved'' None
        \<lparr>status = 200, responseJSON = None\<rparr>
     = ([Call_error_decode 200], None)
   \<and> ajax None (no_options\<lparr>success := True\<rparr>)
        ''Server information could not be retrieved'' None
        \<lparr>status = 200, responseJSON = None\<rparr>
     = ([], Some (DecodeFailure ''Server information could not be retrieved''))"
  using
    ajax_decode_failure [of "\<lparr>status = 200, responseJSON = None\<rparr>"
      "no_options\<lparr>success := True, error := True\<rparr>"
      "''Server information could not be retrieved''"]
    ajax_decode_failure [of "\<lparr>status = 200, responseJSON = None\<rparr>"
      "no_options\<lparr>success := True\<rparr>"
      "''Server information could not be retrieved''"]
  by (simp add: no_options_def)

text \<open>
  \<open>copyDoc\<close> is outside this: it gives \<open>ajax\<close> a \<open>complete\<close> of its own, which parses
  the body with no \<open>try\<close>. With status 201, the status it expects, and a body that is
  not JSON, it throws and the error handler that the caller supplied is not called.
\<close>

lemma copyDoc_unguarded_parse:
  "copyDoc (no_options\<lparr>successStatus := Some 201, success := True, error := True\<rparr>)
         \<lparr>status = 201, responseJSON = None\<rparr>
     = ([], Some SyntaxError)"
  by (simp add: copyDoc_def ajax_def copyDoc_complete_def expected_status_def no_options_def)

section \<open>The UUID cache\<close>

text \<open>
  Claim C8. With a cache that is not empty, \<open>newUUID\<close> sends nothing, returns the
  first cached identifier and leaves the others in the cache. With an empty cache it
  sends one request, for \<open>cacheNum\<close> identifiers (for one when \<open>cacheNum\<close> is
  \<open>undefined\<close>); when the request succeeds the identifiers of the answer become the
  cache, and the first of them is removed and returned (an answer with no identifier
  gives \<open>undefined\<close>). When the request fails, the failure is reported, the cache
  stays empty and the call returns \<open>undefined\<close>: no identifier is made up for it.
\<close>

theorem newUUID_cache:
  "newUUID cacheNum reply (JArr (u # us)) = (Inr u, JArr us, [], [])
   \<and> (status reply = 200 \<and> responseJSON reply = Some resp
        \<and> js_get resp ''uuids'' = Inr (JArr ids) \<longrightarrow>
      newUUID cacheNum reply (JArr []) =
        (case ids of
           [] \<Rightarrow> (Inr JUndefined, JArr [],
                  [if cacheNum = JUndefined then JNum 1 else cacheNum], [])
         | i # rest \<Rightarrow> (Inr i, JArr rest,
                       [if cacheNum = JUndefined then JNum 1 else cacheNum], [])))
   \<and> (responseJSON reply = None \<or> status reply \<noteq> 200 \<longrightarrow>
      (\<exists>e. newUUID cacheNum reply (JArr []) =
             (Inr JUndefined, JArr [],
              [if cacheNum = JUndefined then JNum 1 else cacheNum], [e])))"
proof (intro conjI impI)
  show "newUUID cacheNum reply (JArr (u # us)) = (Inr u, JArr us, [], [])"
    by (simp add: newUUID_def)
next
  assume "status reply = 200 \<and> responseJSON reply = Some resp
            \<and> js_get resp ''uuids'' = Inr (JArr ids)"
  then show "newUUID cacheNum reply (JArr []) =
        (case ids of
           [] \<Rightarrow> (Inr JUndefined, JArr [],
                  [if cacheNum = JUndefined then JNum 1 else cacheNum], [])
         | i # rest \<Rightarrow> (Inr i, JArr rest,
                       [if cacheNum = JUndefined then JNum 1 else cacheNum], []))"
    by (simp add: newUUID_def ajax_complete_def uuid_options_def expected_status_def Let_def
        split: list.splits)
next
  assume "responseJSON reply = None \<or> status reply \<noteq> 200"
  then show "\<exists>e. newUUID cacheNum reply (JArr []) =
             (Inr JUndefined, JArr [],
              [if cacheNum = JUndefined then JNum 1 else cacheNum], [e])"
    by (auto simp add: newUUID_def ajax_complete_def uuid_options_def expected_status_def Let_def
        split: option.splits sum.splits)
qed

theorem newUUID_cache_witness:
  "newUUID JUndefined \<lparr>status = 200, responseJSON = None\<rparr> (JArr [JStr ''u1'', JStr ''u2''])
     = (Inr (JStr ''u1''), JArr [JStr ''u2''], [], [])
   \<and> newUUID (JNum 3)
        \<lparr>status = 200,
         responseJSON = Some (JObj [(''uuids'', JArr [JStr ''a'', JStr ''b'', JStr ''c''])])\<rparr>
        (JArr [])
     = (Inr (JStr ''a''), JArr [JStr ''b'', JStr ''c''], [JNum 3], [])
   \<and> newUUID JUndefined
        \<lparr>status = 200, responseJSON = Some (JObj [(''uuids'', JArr [JStr ''a''])])\<rparr> (JArr [])
     = (Inr (JStr ''a''), JArr [], [JNum 1], [])
   \<and> (\<exists>e. newUUID JUndefined \<lparr>status = 500, responseJSON = None\<rparr> (JArr [])
            = (Inr JUndefined, JArr [], [JNum 1], [e]))"
  using
    newUUID_cache [of JUndefined "\<lparr>status = 200, responseJSON = None\<rparr>" "JStr ''u1''"
      "[JStr ''u2'']" JNull "[]"]
    newUUID_cache [of "JNum 3"
      "\<lparr>status = 200,
        responseJSON = Some (JObj [(''uuids'', JArr [JStr ''a'', JStr ''b'', JStr ''c''])])\<rparr>"
      JNull "[]" "JObj [(''uuids'', JArr [JStr ''a'', JStr ''b'', JStr ''c''])]"
      "[JStr ''a'', JStr ''b'', JStr ''c'']"]
    newUUID_cache [of JUndefined
      "\<lparr>status = 200, responseJSON = Some (JObj [(''uuids'', JArr [JStr ''a''])])\<rparr>"
      JNull "[]" "JObj [(''uuids'', JArr [JStr ''a''])]" "[JStr ''a'']"]
    newUUID_cache [of JUndefined "\<lparr>status = 500, responseJSON = None\<rparr>" JNull "[]" JNull "[]"]
  by simp

section \<open>bulkRemove marks the caller's documents\<close>

lemma fold_set_deleted:
  "fold set_deleted docs h d k =
     (if d \<in> set docs \<and> k = ''_deleted'' then Some (JBool True) else h d k)"
  by (induction docs arbitrary: h) (auto simp: set_deleted_def)

text \<open>
  Claim C10. \<open>bulkRemove\<close> writes \<open>_deleted = true\<close> into every document of
  \<open>docs.docs\<close>, in the caller's own objects, before it builds the request (the
  documents in the request carry the mark). Nothing else in the store changes, and the
  store is the same whatever answer the request gets.
\<close>

theorem bulkRemove_marks_documents:
  "fst (bulkRemove_completed docs opts h req) = fst (bulkRemove docs opts h)
   \<and> (\<forall>d \<in> set docs. fst (bulkRemove docs opts h) d ''_deleted'' = Some (JBool True))
   \<and> (\<forall>d k. d \<notin> set docs \<or> k \<noteq> ''_deleted'' \<longrightarrow> fst (bulkRemove docs opts h) d k = h d k)
   \<and> (\<forall>b \<in> set (snd (snd (bulkRemove docs opts h))). b ''_deleted'' = Some (JBool True))"
  by (auto simp: bulkRemove_completed_def bulkRemove_def Let_def fold_set_deleted
      split: prod.splits)

theorem bulkRemove_marks_documents_witness:
  "fst (bulkRemove_completed [0, 1] no_options
          (\<lambda>d. [''_id'' \<mapsto> JStr ''doc'', ''_rev'' \<mapsto> JStr ''1-a''])
          \<lparr>status = 500, responseJSON = None\<rparr>) 0 ''_deleted'' = Some (JBool True)
   \<and> fst (bulkRemove [0, 1] no_options
          (\<lambda>d. [''_id'' \<mapsto> JStr ''doc'', ''_rev'' \<mapsto> JStr ''1-a''])) 1 ''_deleted''
       = Some (JBool True)
   \<and> fst (bulkRemove [0, 1] no_options
          (\<lambda>d. [''_id'' \<mapsto> JStr ''doc'', ''_rev'' \<mapsto> JStr ''1-a''])) 1 ''_id''
       = Some (JStr ''doc'')
   \<and> fst (bulkRemove [0, 1] no_options
          (\<lambda>d. [''_id'' \<mapsto> JStr ''doc'', ''_rev'' \<mapsto> JStr ''1-a''])) 2 ''_deleted'' = None"
proof -
  let ?h = "\<lambda>d :: ref. [''_id'' \<mapsto> JStr ''doc'', ''_rev'' \<mapsto> JStr ''1-a'']"
  note m = bulkRemove_marks_documents
    [of "[0, 1]" no_options ?h "\<lparr>status = 500, responseJSON = None\<rparr>"]
  from m have c: "fst (bulkRemove_completed [0, 1] no_options ?h \<lparr>status = 500, responseJSON = None\<rparr>)
                    = fst (bulkRemove [0, 1] no_options ?h)"
    by blast
  from m have d: "\<forall>d \<in> set [0, 1 :: ref]. fst (bulkRemove [0, 1] no_options ?h) d ''_deleted''
                    = Some (JBool True)"
    by blast
  from m have f: "\<forall>d k. d \<notin> set [0, 1 :: ref] \<or> k \<noteq> ''_deleted''
                    \<longrightarrow> fst (bulkRemove [0, 1] no_options ?h) d k = ?h d k"
    by blast
  from d have "fst (bulkRemove [0, 1] no_options ?h) 0 ''_deleted'' = Some (JBool True)"
    "fst (bulkRemove [0, 1] no_options ?h) 1 ''_deleted'' = Some (JBool True)"
    by simp_all
  moreover from f have "fst (bulkRemove [0, 1] no_options ?h) 1 ''_id'' = ?h 1 ''_id''"
    "fst (bulkRemove [0, 1] no_options ?h) 2 ''_deleted'' = ?h 2 ''_deleted''"
    by simp_all
  ultimately show ?thesis using c by simp
qed

section \<open>The changes feed: what the handlers do\<close>

lemma invocations_append [simp]: "invocations (a @ b) = invocations a @ invocations b"
  by (induction a rule: invocations.induct) auto

lemma requests_append [simp]: "requests (a @ b) = requests a @ requests b"
  by (induction a rule: requests.induct) auto

lemma schedule_append [simp]: "schedule (a @ b) = schedule a @ schedule b"
  by (induction a rule: schedule.induct) auto

lemma hooks_before_quiet [simp]:
  "invocations (hooks_before opts resp ok) = []"
  "requests (hooks_before opts resp ok) = []"
  "schedule (hooks_before opts resp ok) = []"
  by (simp_all add: hooks_before_def)

lemma poll_target_update [simp]:
  "poll_target (w\<lparr>outstanding := x\<rparr>) = poll_target w"
  "poll_target (w\<lparr>timeout := y\<rparr>) = poll_target w"
  "poll_target (w\<lparr>active := a\<rparr>) = poll_target w"
  "poll_target (w\<lparr>listeners := ls\<rparr>) = poll_target w"
  by (simp_all add: poll_target_def)

lemma remove_nth_single [simp]: "remove_nth 0 [x] = []"
  by (simp add: remove_nth_def)

text \<open>A listener can stop the subscription and add listeners, and nothing else.\<close>

lemma react_frame:
  "react cs w = (t, thrown, w') \<Longrightarrow>
     since w' = since w \<and> timeout w' = timeout w \<and> options w' = options w
     \<and> outstanding w' = outstanding w \<and> uri w' = uri w \<and> (active w' \<longrightarrow> active w)
     \<and> (\<exists>added. listeners w' = listeners w @ added)
     \<and> invocations t = [] \<and> requests t = [] \<and> schedule t = []
     \<and> (Throw \<notin> set cs \<longrightarrow> \<not> thrown)"
proof (induction cs w arbitrary: t thrown w' rule: react.induct)
  case (1 w)
  then show ?case by simp
next
  case (2 cs w)
  obtain t1 th1 w1 where r: "react cs (stop w) = (t1, th1, w1)"
    by (cases "react cs (stop w)")
  with "2.prems" have "t = Called Stop # t1" "thrown = th1" "w' = w1" by auto
  with "2.IH" [OF r] show ?case by (simp add: stop_def)
next
  case (3 fn cs w)
  obtain t1 th1 w1 where r: "react cs (onChange fn w) = (t1, th1, w1)"
    by (cases "react cs (onChange fn w)")
  with "3.prems" have "t = Called (OnChange fn) # t1" "thrown = th1" "w' = w1" by auto
  with "3.IH" [OF r] show ?case by (auto simp add: onChange_def)
next
  case (4 cs w)
  then show ?case by simp
qed

text \<open>
  One delivery calls the listeners from position \<open>i\<close> on, each once and in the order
  of the array as it stands when the delivery ends.
\<close>

lemma triggerListeners_frame:
  "triggerListeners resp rs i w = (t, thrown, w') \<Longrightarrow>
     since w' = since w \<and> timeout w' = timeout w \<and> options w' = options w
     \<and> outstanding w' = outstanding w \<and> uri w' = uri w \<and> (active w' \<longrightarrow> active w)
     \<and> (\<exists>added. listeners w' = listeners w @ added)
     \<and> (\<forall>x \<in> set (invocations t). snd x = resp)
     \<and> (\<not> thrown \<longrightarrow> invocations t = map (\<lambda>l. (l, resp)) (drop i (listeners w')))
     \<and> ((\<forall>r \<in> set rs. Throw \<notin> set r) \<longrightarrow> \<not> thrown)
     \<and> requests t = [] \<and> schedule t = []"
proof (induction resp rs i w arbitrary: t thrown w' rule: triggerListeners.induct)
  case (1 resp i w)
  show ?case
  proof (cases "i < length (listeners w)")
    case False
    with "1.prems" show ?thesis by (simp add: triggerListeners.simps(1) [of resp i w])
  next
    case True
    obtain t1 th1 w1 where r: "triggerListeners resp [] (Suc i) w = (t1, th1, w1)"
      by (cases "triggerListeners resp [] (Suc i) w")
    with True "1.prems"
    have tw: "t = Invoked (listeners w ! i) resp # t1" "thrown = th1" "w' = w1"
      by (simp_all add: triggerListeners.simps(1) [of resp i w])
    note ih = "1.IH" [OF True r]
    from ih have g: "since w1 = since w" "timeout w1 = timeout w" "options w1 = options w"
      "outstanding w1 = outstanding w" "uri w1 = uri w" "active w1 \<longrightarrow> active w"
      "\<exists>added. listeners w1 = listeners w @ added"
      "\<forall>x \<in> set (invocations t1). snd x = resp"
      "\<not> th1 \<longrightarrow> invocations t1 = map (\<lambda>l. (l, resp)) (drop (Suc i) (listeners w1))"
      "\<not> th1" "requests t1 = []" "schedule t1 = []"
      by simp_all
    from g(7) obtain added where a: "listeners w1 = listeners w @ added" by blast
    with True have d: "drop i (listeners w1) = (listeners w ! i) # drop (Suc i) (listeners w1)"
      by (simp add: Cons_nth_drop_Suc [symmetric] nth_append)
    from g(8) have h: "\<forall>x \<in> set (invocations t). snd x = resp"
      unfolding tw by simp
    from g(9,10) have k: "invocations t = map (\<lambda>l. (l, resp)) (drop i (listeners w1))"
      unfolding tw d by simp
    from g(11,12) have q: "requests t = []" "schedule t = []" unfolding tw by simp_all
    from g(1-7,10) h k q show ?thesis unfolding tw(2,3) by simp
  qed
next
  case (2 resp r rs i w)
  show ?case
  proof (cases "i < length (listeners w)")
    case False
    with "2.prems" show ?thesis by (simp add: triggerListeners.simps(2) [of resp r rs i w])
  next
    case True
    obtain t1 th1 w1 where r1: "react r w = (t1, th1, w1)"
      by (cases "react r w")
    from react_frame [OF r1]
    have f: "since w1 = since w" "timeout w1 = timeout w" "options w1 = options w"
      "outstanding w1 = outstanding w" "uri w1 = uri w" "active w1 \<longrightarrow> active w"
      "\<exists>added. listeners w1 = listeners w @ added"
      "invocations t1 = []" "requests t1 = []" "schedule t1 = []"
      "Throw \<notin> set r \<longrightarrow> \<not> th1"
      by simp_all
    show ?thesis
    proof (cases th1)
      case thrown1: True
      with True "2.prems" r1
      have tw: "t = Invoked (listeners w ! i) resp # t1" "thrown = True" "w' = w1"
        by (simp_all add: triggerListeners.simps(2) [of resp r rs i w])
      from f(11) thrown1 have n: "Throw \<in> set r" by blast
      from f(8) have h: "\<forall>x \<in> set (invocations t). snd x = resp"
        unfolding tw by simp
      from f(9,10) have q: "requests t = []" "schedule t = []" unfolding tw by simp_all
      from n have m: "\<not> (\<forall>r \<in> set (r # rs). Throw \<notin> set r)" by simp
      from f(1-7) h q m show ?thesis unfolding tw(2,3) by simp
    next
      case returned: False
      obtain t2 th2 w2 where r2: "triggerListeners resp rs (Suc i) w1 = (t2, th2, w2)"
        by (cases "triggerListeners resp rs (Suc i) w1")
      from True "2.prems" r1 r2 returned
      have tw: "t = Invoked (listeners w ! i) resp # t1 @ t2" "thrown = th2" "w' = w2"
        by (simp_all add: triggerListeners.simps(2) [of resp r rs i w])
      from returned have nt: "\<not> th1" .
      note ih = "2.IH" [OF True r1 [symmetric] refl refl nt r2]
      from ih have g: "since w2 = since w1" "timeout w2 = timeout w1" "options w2 = options w1"
        "outstanding w2 = outstanding w1" "uri w2 = uri w1" "active w2 \<longrightarrow> active w1"
        "\<exists>added. listeners w2 = listeners w1 @ added"
        "\<forall>x \<in> set (invocations t2). snd x = resp"
        "\<not> th2 \<longrightarrow> invocations t2 = map (\<lambda>l. (l, resp)) (drop (Suc i) (listeners w2))"
        "(\<forall>r \<in> set rs. Throw \<notin> set r) \<longrightarrow> \<not> th2"
        "requests t2 = []" "schedule t2 = []"
        by simp_all
      from f(7) obtain a1 where a1: "listeners w1 = listeners w @ a1" by blast
      from g(7) obtain a2 where a2: "listeners w2 = listeners w1 @ a2" by blast
      from a1 a2 have la: "\<exists>added. listeners w2 = listeners w @ added" by simp
      from a1 a2 True
      have d: "drop i (listeners w2) = (listeners w ! i) # drop (Suc i) (listeners w2)"
        by (simp add: Cons_nth_drop_Suc [symmetric] nth_append)
      from g(8) f(8) have h: "\<forall>x \<in> set (invocations t). snd x = resp"
        unfolding tw by simp
      from g(9) f(8)
      have k: "\<not> th2 \<longrightarrow> invocations t = map (\<lambda>l. (l, resp)) (drop i (listeners w2))"
        unfolding tw d by simp
      from g(11,12) f(9,10) have q: "requests t = []" "schedule t = []"
        unfolding tw by simp_all
      from g(10) have m: "(\<forall>r \<in> set (r # rs). Throw \<notin> set r) \<longrightarrow> \<not> th2" by simp
      from f(6) g(6) have ac: "active w2 \<longrightarrow> active w" by blast
      from f(1-5) g(1-5) la h k q m ac show ?thesis unfolding tw(2,3) by simp
    qed
  qed
qed

lemma triggerListeners_quiet:
  "triggerListeners resp [] i w = (t, thrown, w') \<Longrightarrow> w' = w"
proof (induction "length (listeners w) - i" arbitrary: i t thrown w')
  case 0
  then show ?case by (simp add: triggerListeners.simps(1) [of resp i w])
next
  case (Suc n)
  then have lt: "i < length (listeners w)" by simp
  obtain t1 th1 w1 where r: "triggerListeners resp [] (Suc i) w = (t1, th1, w1)"
    by (cases "triggerListeners resp [] (Suc i) w")
  with lt Suc.prems have "w' = w1" by (simp add: triggerListeners.simps(1) [of resp i w])
  moreover from Suc.hyps(2) have "n = length (listeners w) - Suc i" by simp
  from Suc.hyps(1) [OF this r] have "w1 = w" .
  ultimately show ?case by simp
qed

lemma getChangesSince_eq:
  "getChangesSince w =
     ([Sent (poll_target w)], w\<lparr>outstanding := outstanding w @ [Request (poll_target w)]\<rparr>)"
  by (simp add: getChangesSince_def send_def poll_target_def)

lemma options_error_eq:
  "options_error w =
     (if active w then
        ([SetTimeout (timeout w)],
         w\<lparr>outstanding := outstanding w @ [Timer (timeout w)],
           timeout := twice (timeout w)\<rparr>)
      else ([], w))"
  by (simp add: options_error_def)

lemma options_success_inactive:
  "\<not> active w \<Longrightarrow> options_success resp rs w = ([], w\<lparr>timeout := Finite 100\<rparr>)"
  by (simp add: options_success_def)

lemma options_success_throws:
  "active w \<Longrightarrow> js_get resp ''last_seq'' = Inl e \<Longrightarrow>
   options_success resp rs w = ([Uncaught e], w\<lparr>timeout := Finite 100\<rparr>)"
  by (simp add: options_success_def)

lemma options_success_active:
  assumes "active w" "js_get resp ''last_seq'' = Inr seq"
  shows "\<exists>t1 thrown w1.
           triggerListeners resp rs 0 (w\<lparr>timeout := Finite 100, since := seq\<rparr>)
             = (t1, thrown, w1)
           \<and> options_success resp rs w =
               (if thrown then (t1 @ [Uncaught Thrown_by_caller], w1)
                else (t1 @ [Sent (poll_target w1)],
                      w1\<lparr>outstanding := outstanding w1 @ [Request (poll_target w1)]\<rparr>))"
proof -
  obtain t1 thrown w1 where
    r: "triggerListeners resp rs 0 (w\<lparr>timeout := Finite 100, since := seq\<rparr>)
          = (t1, thrown, w1)"
    by (cases "triggerListeners resp rs 0 (w\<lparr>timeout := Finite 100, since := seq\<rparr>)")
  with assms show ?thesis
    by (simp add: options_success_def getChangesSince_eq)
qed

lemma options_success_obs:
  assumes "options_success resp rs w = (t, w')"
  shows "(invocations t \<noteq> [] \<longrightarrow> active w)
    \<and> (\<forall>x \<in> set (invocations t). snd x = resp)
    \<and> (active w' \<longrightarrow> active w) \<and> timeout w' = Finite 100"
proof (cases "active w")
  case False
  with assms have "t = []" "w' = w\<lparr>timeout := Finite 100\<rparr>"
    by (simp_all add: options_success_inactive)
  with False show ?thesis by simp
next
  case act: True
  show ?thesis
  proof (cases "js_get resp ''last_seq''")
    case (Inl e)
    with act assms have "t = [Uncaught e]" "w' = w\<lparr>timeout := Finite 100\<rparr>"
      by (simp_all add: options_success_throws)
    with act show ?thesis by simp
  next
    case (Inr seq)
    from options_success_active [OF act Inr, of rs] obtain t1 thrown w1 where
      r: "triggerListeners resp rs 0 (w\<lparr>timeout := Finite 100, since := seq\<rparr>)
            = (t1, thrown, w1)"
      and e: "options_success resp rs w =
               (if thrown then (t1 @ [Uncaught Thrown_by_caller], w1)
                else (t1 @ [Sent (poll_target w1)],
                      w1\<lparr>outstanding := outstanding w1 @ [Request (poll_target w1)]\<rparr>))"
      by blast
    from triggerListeners_frame [OF r]
    have g: "\<forall>x \<in> set (invocations t1). snd x = resp" "timeout w1 = Finite 100"
      by simp_all
    from e assms have "invocations t = invocations t1" "timeout w' = timeout w1"
      by (cases thrown; simp)+
    with g act show ?thesis by simp
  qed
qed

text \<open>The completion of a request, by the cases of \<open>ajax_complete\<close>.\<close>

lemma complete_info:
  "complete_request Info req rs w =
     (case responseJSON req of
        None \<Rightarrow> ([Uncaught (DecodeFailure ''Database information could not be retrieved'')], w)
      | Some resp \<Rightarrow>
          if status req = 200 then info_success resp w
          else (case js_get resp ''reason'' of
                  Inl e \<Rightarrow> ([Uncaught e], w)
                | Inr r \<Rightarrow>
                    ([Uncaught (Failure ''Database information could not be retrieved'' r)], w)))"
  by (simp add: complete_request_def ajax_complete_def info_options_def expected_status_def
      uncaught_def split: option.splits sum.splits prod.splits)

lemma complete_changes:
  "complete_request (Changes hb c) req rs w =
     (case responseJSON req of
        None \<Rightarrow>
          if error (options w) then options_error w
          else ([Uncaught (DecodeFailure (''Error connecting to '' @ uri w @ ''/_changes.''))], w)
      | Some resp \<Rightarrow>
          if status req = expected_status (options w) then
            (if success (options w) then
               (hooks_before (options w) resp True @ fst (options_success resp rs w),
                snd (options_success resp rs w))
             else (hooks_before (options w) resp True, w))
          else if error (options w) then
            (hooks_before (options w) resp False @ fst (options_error w), snd (options_error w))
          else
            (hooks_before (options w) resp False
               @ (case js_get resp ''reason'' of
                    Inl e \<Rightarrow> [Uncaught e]
                  | Inr r \<Rightarrow>
                      [Uncaught (Failure (''Error connecting to '' @ uri w @ ''/_changes.'') r)]),
             w))"
  by (simp add: complete_request_def ajax_complete_def uncaught_def hooks_before_def Let_def
      split: prod.splits option.splits sum.splits)

lemma complete_changes_decode:
  "responseJSON req = None \<Longrightarrow> error (options w) \<Longrightarrow>
   complete_request (Changes hb c) req rs w = options_error w"
  by (simp add: complete_changes)

lemma complete_changes_status:
  "responseJSON req = Some resp \<Longrightarrow> status req \<noteq> expected_status (options w) \<Longrightarrow>
   error (options w) \<Longrightarrow>
   complete_request (Changes hb c) req rs w =
     (hooks_before (options w) resp False @ fst (options_error w), snd (options_error w))"
  by (simp add: complete_changes)

lemma complete_changes_success:
  "responseJSON req = Some resp \<Longrightarrow> status req = expected_status (options w) \<Longrightarrow>
   success (options w) \<Longrightarrow>
   complete_request (Changes hb c) req rs w =
     (hooks_before (options w) resp True @ fst (options_success resp rs w),
      snd (options_success resp rs w))"
  by (simp add: complete_changes)

lemma complete_changes_obs:
  assumes "complete_request (Changes hb c) req rs w = (t, w')"
  shows "(invocations t \<noteq> [] \<longrightarrow>
            active w \<and> status req = expected_status (options w)
            \<and> (\<exists>resp. responseJSON req = Some resp
                 \<and> (\<forall>x \<in> set (invocations t). snd x = resp)))
    \<and> (active w' \<longrightarrow> active w)"
proof (cases "responseJSON req")
  case None
  with assms show ?thesis
    by (auto simp: complete_changes options_error_eq split: if_splits)
next
  case (Some resp)
  obtain t1 w1 where s: "options_success resp rs w = (t1, w1)"
    by (cases "options_success resp rs w")
  note o = options_success_obs [OF s]
  from assms Some s o show ?thesis
    by (auto simp: complete_changes options_error_eq split: if_splits sum.splits)
qed

lemma info_success_obs:
  "info_success info w = (t, w') \<Longrightarrow> invocations t = [] \<and> active w' = active w"
  by (auto simp: info_success_def getChangesSince_eq split: sum.splits)

lemma complete_info_obs:
  "complete_request Info req rs w = (t, w') \<Longrightarrow> invocations t = [] \<and> active w' = active w"
  by (auto simp: complete_info dest: info_success_obs split: option.splits if_splits sum.splits)

lemma hooks_quiet [simp]:
  "invocations (map Hook cs) = []" "requests (map Hook cs) = []" "schedule (map Hook cs) = []"
  by (induction cs) simp_all

lemma hook_throws_obs:
  assumes "hook_throws tg req k w = Some (t, w')"
  shows "w' = w \<and> invocations t = [] \<and> requests t = [] \<and> schedule t = []"
  using assms by (auto simp: hook_throws_def Let_def split: if_splits)

lemma step_invocations:
  assumes "step ev w = Some (t, w')" "(l, p) \<in> set (invocations t)"
  shows "active w \<and> (\<exists>i req rs hb c. ev = Ev_complete i req rs \<and> i < length (outstanding w)
           \<and> outstanding w ! i = Request (Changes hb c)
           \<and> responseJSON req = Some p \<and> status req = expected_status (options w))"
proof (cases ev)
  case Ev_stop
  with assms show ?thesis by auto
next
  case (Ev_onChange fn)
  with assms show ?thesis by auto
next
  case (Ev_fire i)
  with assms show ?thesis
    by (auto simp: getChangesSince_eq split: if_splits pending.splits)
next
  case (Ev_hook_throws i req k)
  with assms(1) obtain tg where
    "hook_throws tg req k (w\<lparr>outstanding := remove_nth i (outstanding w)\<rparr>) = Some (t, w')"
    by (auto split: if_splits pending.splits)
  from hook_throws_obs [OF this] assms(2) show ?thesis by simp
next
  case (Ev_complete i req rs)
  with assms obtain tg where i: "i < length (outstanding w)"
    and o: "outstanding w ! i = Request tg"
    and c: "complete_request tg req rs (w\<lparr>outstanding := remove_nth i (outstanding w)\<rparr>) = (t, w')"
    by (auto split: if_splits pending.splits)
  show ?thesis
  proof (cases tg)
    case Info
    with c assms(2) complete_info_obs show ?thesis by fastforce
  next
    case (Changes hb cur)
    from assms(2) have ne: "invocations t \<noteq> []" by auto
    from complete_changes_obs [OF c [unfolded Changes]] ne assms(2)
    have "active w" "status req = expected_status (options w)" "responseJSON req = Some p"
      by auto
    with Ev_complete i o Changes show ?thesis by auto
  qed
qed

lemma step_inactive:
  assumes "step ev w = Some (t, w')" "\<not> active w"
  shows "invocations t = [] \<and> \<not> active w'"
proof -
  have "invocations t = []"
  proof (rule ccontr)
    assume "invocations t \<noteq> []"
    then obtain l p where "(l, p) \<in> set (invocations t)"
      by (cases "invocations t") auto
    from step_invocations [OF assms(1) this] assms(2) show False by simp
  qed
  moreover have "\<not> active w'"
  proof (cases ev)
    case Ev_stop
    with assms show ?thesis by (auto simp: stop_def)
  next
    case (Ev_onChange fn)
    with assms show ?thesis by (auto simp: onChange_def)
  next
    case (Ev_fire i)
    with assms show ?thesis
      by (auto simp: getChangesSince_eq split: if_splits pending.splits)
  next
    case (Ev_hook_throws i req k)
    with assms(1) obtain tg where
      "hook_throws tg req k (w\<lparr>outstanding := remove_nth i (outstanding w)\<rparr>) = Some (t, w')"
      by (auto split: if_splits pending.splits)
    from hook_throws_obs [OF this] assms(2) show ?thesis by simp
  next
    case (Ev_complete i req rs)
    with assms obtain tg where
      c: "complete_request tg req rs (w\<lparr>outstanding := remove_nth i (outstanding w)\<rparr>) = (t, w')"
      by (auto split: if_splits pending.splits)
    show ?thesis
    proof (cases tg)
      case Info
      with c assms(2) complete_info_obs show ?thesis by fastforce
    next
      case (Changes hb cur)
      from complete_changes_obs [OF c [unfolded Changes]] assms(2) show ?thesis by auto
    qed
  qed
  ultimately show ?thesis by simp
qed

lemma run_inactive:
  "run evs w = Some (t, w') \<Longrightarrow> \<not> active w \<Longrightarrow> invocations t = [] \<and> \<not> active w'"
proof (induction evs arbitrary: w t)
  case Nil
  then show ?case by simp
next
  case (Cons e es)
  from Cons.prems obtain t1 w1 t2 where s: "step e w = Some (t1, w1)"
    and r: "run es w1 = Some (t2, w')" and t: "t = t1 @ t2"
    by (auto split: option.splits)
  from step_inactive [OF s Cons.prems(2)] Cons.IH [OF r] t show ?case by simp
qed

section \<open>The changes feed: every subscription\<close>

lemma subscribed_changes: "subscribed (snd (changes u s0 o0))"
  by (simp add: changes_def subscribed_def getChangesSince_eq send_def Let_def poll_target_def)

lemma subscribed_index:
  "subscribed w \<Longrightarrow> i < length (outstanding w) \<Longrightarrow> i = 0 \<and> outstanding w = [outstanding w ! i]"
  by (auto simp: subscribed_def)

lemma subscribed_info_success:
  assumes "success (options w)" "error (options w)" "outstanding w = []"
    and "info_success info w = (t, w')"
  shows "subscribed w'"
  using assms
  by (auto simp: info_success_def getChangesSince_eq subscribed_def split: sum.splits)

lemma subscribed_options_error:
  assumes "success (options w)" "error (options w)" "outstanding w = []"
    and "options_error w = (t, w')"
  shows "subscribed w'"
  using assms by (auto simp: options_error_eq subscribed_def split: if_splits)

lemma subscribed_options_success:
  assumes "success (options w)" "error (options w)" "outstanding w = []"
    and "options_success resp rs w = (t, w')"
  shows "subscribed w'"
proof (cases "active w")
  case False
  with assms show ?thesis by (auto simp: options_success_inactive subscribed_def)
next
  case True
  show ?thesis
  proof (cases "js_get resp ''last_seq''")
    case (Inl e)
    with True assms show ?thesis by (auto simp: options_success_throws subscribed_def)
  next
    case (Inr seq)
    from options_success_active [OF True Inr, of rs] obtain t1 thrown w1 where
      r: "triggerListeners resp rs 0 (w\<lparr>timeout := Finite 100, since := seq\<rparr>)
            = (t1, thrown, w1)"
      and e: "options_success resp rs w =
               (if thrown then (t1 @ [Uncaught Thrown_by_caller], w1)
                else (t1 @ [Sent (poll_target w1)],
                      w1\<lparr>outstanding := outstanding w1 @ [Request (poll_target w1)]\<rparr>))"
      by blast
    from triggerListeners_frame [OF r] assms e show ?thesis
      by (auto simp: subscribed_def split: if_splits)
  qed
qed

lemma subscribed_step:
  assumes "subscribed w" "step ev w = Some (t, w')"
  shows "subscribed w'"
proof (cases ev)
  case Ev_stop
  with assms show ?thesis by (auto simp: stop_def subscribed_def)
next
  case (Ev_onChange fn)
  with assms show ?thesis by (auto simp: onChange_def subscribed_def)
next
  case (Ev_fire i)
  with assms obtain d where i: "i < length (outstanding w)"
    and o: "outstanding w ! i = Timer d"
    and g: "getChangesSince (w\<lparr>outstanding := remove_nth i (outstanding w)\<rparr>) = (t, w')"
    by (auto split: if_splits pending.splits)
  from subscribed_index [OF assms(1) i] o have "i = 0" "outstanding w = [Timer d]" by auto
  with g assms(1) show ?thesis by (auto simp: getChangesSince_eq subscribed_def)
next
  case (Ev_hook_throws i req k)
  with assms obtain tg where i: "i < length (outstanding w)"
    and o: "outstanding w ! i = Request tg"
    and h: "hook_throws tg req k (w\<lparr>outstanding := remove_nth i (outstanding w)\<rparr>)
              = Some (t, w')"
    by (auto split: if_splits pending.splits)
  from subscribed_index [OF assms(1) i] o have "i = 0" "outstanding w = [Request tg]" by auto
  with hook_throws_obs [OF h] assms(1) show ?thesis by (simp add: subscribed_def)
next
  case (Ev_complete i req rs)
  with assms obtain tg where i: "i < length (outstanding w)"
    and o: "outstanding w ! i = Request tg"
    and c: "complete_request tg req rs (w\<lparr>outstanding := remove_nth i (outstanding w)\<rparr>) = (t, w')"
    by (auto split: if_splits pending.splits)
  from subscribed_index [OF assms(1) i] o
  have i0: "i = 0" and ow: "outstanding w = [Request tg]"
    by auto
  define v where "v = w\<lparr>outstanding := remove_nth i (outstanding w)\<rparr>"
  from i0 ow assms(1) have v: "success (options v)" "error (options v)" "outstanding v = []"
    by (auto simp: v_def subscribed_def)
  from c have c': "complete_request tg req rs v = (t, w')" by (simp add: v_def)
  show ?thesis
  proof (cases tg)
    case Info
    with c' v show ?thesis
      by (auto simp: complete_info subscribed_def dest: subscribed_info_success [OF v]
          split: option.splits if_splits sum.splits)
  next
    case (Changes hb cur)
    obtain t1 w1 where s: "options_success (the (responseJSON req)) rs v = (t1, w1)"
      by (cases "options_success (the (responseJSON req)) rs v")
    obtain t2 w2 where e: "options_error v = (t2, w2)"
      by (cases "options_error v")
    from c' [unfolded Changes] v s e
      subscribed_options_success [OF v s] subscribed_options_error [OF v e]
    show ?thesis
      by (auto simp: complete_changes split: option.splits if_splits)
  qed
qed

lemma subscribed_run:
  "subscribed w \<Longrightarrow> run evs w = Some (t, w') \<Longrightarrow> subscribed w'"
proof (induction evs arbitrary: w t)
  case Nil
  then show ?case by simp
next
  case (Cons e es)
  from Cons.prems obtain t1 w1 t2 where s: "step e w = Some (t1, w1)"
    and r: "run es w1 = Some (t2, w')"
    by (auto split: option.splits)
  from Cons.IH [OF subscribed_step [OF Cons.prems(1) s] r] show ?case .
qed

lemma reached_subscribed:
  "run evs (snd (changes u s0 o0)) = Some (t, w) \<Longrightarrow> subscribed w"
  using subscribed_run [OF subscribed_changes] .

lemmas feed_eval =
  changes_def getChangesSince_def send_def onChange_def stop_def complete_request_def
  ajax_complete_def expected_status_def no_options_def info_options_def info_success_def
  options_success_def options_error_def uncaught_def remove_nth_def Let_def
  triggerListeners.simps example_feed_def poll_fails_def

lemma example_feed_reached:
  "run [Ev_onChange 1, Ev_onChange 2]
       (snd (changes ''http://.touchdb./mydb/'' (JNum 10) no_options))
     = Some ([Called (OnChange 1), Called (OnChange 2)], example_feed)"
  by (simp add: feed_eval)

section \<open>Stopping a subscription\<close>

text \<open>
  Claim C1 asks that no poll is ever sent once \<open>stop()\<close> has been called. The two
  handlers of a poll test \<open>active\<close>, but the \<open>success\<close> callback of the metadata
  request and the timer of a retry call \<open>getChangesSince\<close> without looking at it. So a
  subscription started without a cursor and stopped before the metadata arrive still
  sends its first poll, and a subscription stopped while a retry is waiting still
  sends the retry.
\<close>

theorem stop_does_not_cancel_pending_poll:
  "map_option fst
     (run [Ev_stop,
           Ev_complete 0 \<lparr>status = 200, responseJSON = Some (JObj [(''update_seq'', JNum 10)])\<rparr> []]
          (snd (changes ''http://.touchdb./mydb/'' JUndefined no_options)))
     = Some [Called Stop, Sent (Changes (JNum 10000) (JNum 10))]
   \<and> map_option fst
       (run [Ev_complete 0 \<lparr>status = 500, responseJSON = None\<rparr> [], Ev_stop, Ev_fire 0]
            (snd (changes ''http://.touchdb./mydb/'' (JNum 10) no_options)))
     = Some [SetTimeout (Finite 100), Called Stop, Sent (Changes (JNum 10000) (JNum 10))]"
  by (simp add: feed_eval)

text \<open>
  What does hold: the answer to a poll that arrives when \<open>active\<close> is false sends no
  request, sets no timer and calls no listener.
\<close>

lemma stopped_poll_completion:
  assumes "\<not> active w" "i < length (outstanding w)"
    and "outstanding w ! i = Request (Changes hb c)"
  shows "\<exists>t w'. step (Ev_complete i req rs) w = Some (t, w')
           \<and> schedule t = [] \<and> invocations t = []"
proof -
  define v where "v = w\<lparr>outstanding := remove_nth i (outstanding w)\<rparr>"
  from assms(1) have na: "\<not> active v" by (simp add: v_def)
  obtain t w' where c: "complete_request (Changes hb c) req rs v = (t, w')"
    by (cases "complete_request (Changes hb c) req rs v")
  from c na have "schedule t = []"
    by (auto simp: complete_changes options_error_eq options_success_inactive
        split: option.splits if_splits sum.splits)
  moreover from complete_changes_obs [OF c] na have "invocations t = []" by auto
  moreover from assms(2,3) c have "step (Ev_complete i req rs) w = Some (t, w')"
    by (simp add: v_def)
  ultimately show ?thesis by blast
qed

section \<open>Listeners are called on success only\<close>

text \<open>
  Claim C2, as amended. A listener is called only when a poll completes with the
  expected status and a JSON body, with that body as its argument, and only when
  \<open>active\<close> was true as the completion began. Once \<open>active\<close> is false between two events
  it stays false, and no listener is called in any event that follows: not for an
  answer that was under way, not for a failed poll.
\<close>

theorem listeners_called_on_active_success:
  "(step ev w = Some (t, w') \<and> (l, p) \<in> set (invocations t) \<longrightarrow>
      active w
      \<and> (\<exists>i req rs hb c. ev = Ev_complete i req rs \<and> i < length (outstanding w)
            \<and> outstanding w ! i = Request (Changes hb c)
            \<and> responseJSON req = Some p \<and> status req = expected_status (options w)))
   \<and> (run evs v = Some (tr, v') \<and> \<not> active v \<longrightarrow> invocations tr = [] \<and> \<not> active v')"
  using step_invocations [of ev w t w' l p] run_inactive [of evs v tr v'] by blast

theorem listeners_called_on_active_success_witness:
  "step (Ev_complete 0 \<lparr>status = 200, responseJSON = Some (JObj [(''last_seq'', JNum 11)])\<rparr> [])
        example_feed
     = Some ([Invoked 1 (JObj [(''last_seq'', JNum 11)]),
              Invoked 2 (JObj [(''last_seq'', JNum 11)]),
              Sent (Changes (JNum 10000) (JNum 11))],
             example_feed\<lparr>since := JNum 11,
                          outstanding := [Request (Changes (JNum 10000) (JNum 11))]\<rparr>)
   \<and> active example_feed
   \<and> run [Ev_complete 0 \<lparr>status = 200, responseJSON = Some (JObj [(''last_seq'', JNum 11)])\<rparr> []]
         (stop example_feed)
     = Some ([], example_feed\<lparr>active := False, outstanding := []\<rparr>)
   \<and> \<not> active (example_feed\<lparr>active := False, outstanding := []\<rparr>)"
proof -
  let ?ok = "\<lparr>status = 200, responseJSON = Some (JObj [(''last_seq'', JNum 11)])\<rparr>"
  let ?t = "[Invoked 1 (JObj [(''last_seq'', JNum 11)]),
             Invoked 2 (JObj [(''last_seq'', JNum 11)]),
             Sent (Changes (JNum 10000) (JNum 11))]"
  let ?w = "example_feed\<lparr>since := JNum 11,
                          outstanding := [Request (Changes (JNum 10000) (JNum 11))]\<rparr>"
  let ?v = "example_feed\<lparr>active := False, outstanding := []\<rparr>"
  have s: "step (Ev_complete 0 ?ok []) example_feed = Some (?t, ?w)"
    by (simp add: feed_eval)
  have m: "(1, JObj [(''last_seq'', JNum 11)]) \<in> set (invocations ?t)"
    by simp
  have r: "run [Ev_complete 0 ?ok []] (stop example_feed) = Some ([], ?v)"
    by (simp add: feed_eval)
  have na: "\<not> active (stop example_feed)"
    by (simp add: stop_def)
  from listeners_called_on_active_success
    [of "Ev_complete 0 ?ok []" example_feed ?t ?w 1 "JObj [(''last_seq'', JNum 11)]"
        "[Ev_complete 0 ?ok []]" "stop example_feed" "[]" ?v]
    s m r na
  have "active example_feed" "\<not> active ?v" by blast+
  with s r show ?thesis by simp
qed

text \<open>
  The claim as written has it that no listener is called after \<open>stop()\<close>. A listener
  may itself call \<open>stop()\<close>; \<open>active\<close> is tested once, before the listeners are called,
  so the listeners that follow in the array are still called with the batch.
\<close>

theorem listener_after_stop_counterexample:
  "map_option fst
     (run [Ev_complete 0
             \<lparr>status = 200, responseJSON = Some (JObj [(''last_seq'', JNum 11)])\<rparr> [[Stop]]]
          example_feed)
     = Some [Invoked 1 (JObj [(''last_seq'', JNum 11)]),
             Called Stop,
             Invoked 2 (JObj [(''last_seq'', JNum 11)]),
             Sent (Changes (JNum 10000) (JNum 11))]"
  by (simp add: feed_eval)

section \<open>Retrying a failed poll\<close>

lemma poll_fails_step:
  assumes "subscribed w" "active w" "outstanding w = [Request (poll_target w)]" "poll_fails w r"
  shows "\<exists>t. step (Ev_complete 0 r rs) w
              = Some (t, w\<lparr>outstanding := [Timer (timeout w)], timeout := twice (timeout w)\<rparr>)
           \<and> schedule t = [SetTimeout (timeout w)]"
proof -
  define v where "v = w\<lparr>outstanding := remove_nth 0 (outstanding w)\<rparr>"
  from assms have v: "error (options v)" "active v" "outstanding v = []" "timeout v = timeout w"
    by (simp_all add: v_def subscribed_def)
  have pt: "poll_target w =
      Changes (case heartbeat (options w) of None \<Rightarrow> JNum 10000 | Some h \<Rightarrow> h) (since w)"
    by (simp add: poll_target_def)
  have oe: "options_error v =
      ([SetTimeout (timeout w)],
       w\<lparr>outstanding := [Timer (timeout w)], timeout := twice (timeout w)\<rparr>)"
    using v assms(3) by (simp add: options_error_eq v_def)
  from assms(4) have pf: "responseJSON r = None \<or> status r \<noteq> expected_status (options v)"
    by (simp add: poll_fails_def v_def)
  have "\<exists>t. complete_request (poll_target w) r rs v
               = (t, w\<lparr>outstanding := [Timer (timeout w)], timeout := twice (timeout w)\<rparr>)
           \<and> schedule t = [SetTimeout (timeout w)]"
  proof (cases "responseJSON r")
    case None
    with v oe show ?thesis by (simp add: pt complete_changes_decode)
  next
    case (Some resp)
    with pf have "status r \<noteq> expected_status (options v)" by simp
    with Some v oe show ?thesis by (simp add: pt complete_changes_status)
  qed
  with assms(3) show ?thesis by (simp add: v_def)
qed

lemma timer_fires:
  assumes "outstanding w = [Timer d]"
  shows "step (Ev_fire 0) w
           = Some ([Sent (poll_target w)], w\<lparr>outstanding := [Request (poll_target w)]\<rparr>)"
  using assms by (simp add: getChangesSince_eq)

lemma retries_schedule:
  assumes "subscribed w" "active w" "outstanding w = [Request (poll_target w)]"
    and "\<forall>r \<in> set reqs. poll_fails w r"
  shows "\<exists>t. run (retries reqs) w
               = Some (t, w\<lparr>timeout := (twice ^^ length reqs) (timeout w)\<rparr>)
           \<and> schedule t = backoff (poll_target w) (timeout w) (length reqs)"
  using assms
proof (induction reqs arbitrary: w)
  case Nil
  then show ?case by simp
next
  case (Cons r reqs)
  let ?w1 = "w\<lparr>outstanding := [Timer (timeout w)], timeout := twice (timeout w)\<rparr>"
  let ?w2 = "w\<lparr>timeout := twice (timeout w)\<rparr>"
  from Cons.prems have pf: "poll_fails w r" by simp
  from poll_fails_step [OF Cons.prems(1,2,3) pf, of "[]"] obtain t1 where
    s1: "step (Ev_complete 0 r []) w = Some (t1, ?w1)"
    and t1: "schedule t1 = [SetTimeout (timeout w)]"
    by blast
  have "step (Ev_fire 0) ?w1
          = Some ([Sent (poll_target ?w1)], ?w1\<lparr>outstanding := [Request (poll_target ?w1)]\<rparr>)"
    by (rule timer_fires) simp
  moreover have "?w1\<lparr>outstanding := [Request (poll_target ?w1)]\<rparr> = ?w2"
    using Cons.prems(3) by simp
  ultimately have s2: "step (Ev_fire 0) ?w1 = Some ([Sent (poll_target w)], ?w2)" by simp
  have p2: "subscribed ?w2" "active ?w2" "outstanding ?w2 = [Request (poll_target ?w2)]"
    "\<forall>r \<in> set reqs. poll_fails ?w2 r"
    using Cons.prems by (simp_all add: subscribed_def poll_fails_def)
  from Cons.IH [OF p2] obtain t2 where
    r2: "run (retries reqs) ?w2
           = Some (t2, ?w2\<lparr>timeout := (twice ^^ length reqs) (timeout ?w2)\<rparr>)"
    and t2: "schedule t2 = backoff (poll_target ?w2) (timeout ?w2) (length reqs)"
    by blast
  have run: "run (retries (r # reqs)) w =
      Some (t1 @ [Sent (poll_target w)] @ t2,
            w\<lparr>timeout := (twice ^^ length (r # reqs)) (timeout w)\<rparr>)"
    using s1 s2 r2 by (simp add: funpow_swap1)
  have "schedule (t1 @ [Sent (poll_target w)] @ t2)
          = backoff (poll_target w) (timeout w) (length (r # reqs))"
    using t1 t2 by simp
  with run show ?case by blast
qed

lemma backoff_formula:
  "backoff tg d n = concat (map (\<lambda>k. [SetTimeout ((twice ^^ k) d), Sent tg]) [0..<n])"
proof (induction n arbitrary: d)
  case 0
  show ?case by simp
next
  case (Suc n)
  have "[0..<Suc n] = 0 # map Suc [0..<n]"
    by (simp add: upt_conv_Cons map_Suc_upt del: upt_Suc)
  then have "concat (map (\<lambda>k. [SetTimeout ((twice ^^ k) d), Sent tg]) [0..<Suc n])
      = SetTimeout d # Sent tg
          # concat (map (\<lambda>k. [SetTimeout ((twice ^^ k) (twice d)), Sent tg]) [0..<n])"
    by (simp add: comp_def funpow_swap1)
  with Suc [of "twice d"] show ?case by simp
qed

lemma backoff_timer:
  "k < n \<Longrightarrow> backoff tg d n ! (2 * k) = SetTimeout ((twice ^^ k) d)"
proof (induction n arbitrary: d k)
  case 0
  then show ?case by simp
next
  case (Suc n)
  show ?case
  proof (cases k)
    case 0
    then show ?thesis by simp
  next
    case (Suc j)
    with Suc.prems Suc.IH [of j "twice d"] show ?thesis by (simp add: funpow_swap1)
  qed
qed

text \<open>
  The delay after \<open>k\<close> doublings: \<open>100 * 2 ^ k\<close> up to \<open>k = 1017\<close>, the last product
  below \<open>2^1024\<close>, and \<open>Infinity\<close> from there on.
\<close>

lemma below_overflow: "k \<le> 1017 \<Longrightarrow> (100 :: int) * 2 ^ k < 2 ^ 1024"
proof -
  have aux: "(100 :: int) * 2 ^ k < 2 ^ (n + 7)" if "k \<le> n" for n
  proof -
    from that have "(2 :: int) ^ k \<le> 2 ^ n" by (rule power_increasing) simp
    then have "(100 :: int) * 2 ^ k \<le> 100 * 2 ^ n" by (rule mult_left_mono) simp
    also have "(100 :: int) * 2 ^ n < 128 * 2 ^ n" by simp
    also have "(128 :: int) * 2 ^ n = 2 ^ (n + 7)" by (simp add: power_add)
    finally show ?thesis .
  qed
  have n: "(1017 :: nat) + 7 = 1024" by simp
  assume "k \<le> 1017"
  from aux [OF this, unfolded n] show ?thesis .
qed

lemma at_overflow: "1018 \<le> k \<Longrightarrow> \<not> (100 :: int) * 2 ^ k < 2 ^ 1024"
proof -
  have aux: "(2 :: int) ^ (n + 6) \<le> 100 * 2 ^ k" if "n \<le> k" for n
  proof -
    have "(2 :: int) ^ (n + 6) = 64 * 2 ^ n" by (simp add: power_add)
    also have "\<dots> \<le> 100 * 2 ^ n" by simp
    also from that have "(2 :: int) ^ n \<le> 2 ^ k" by (rule power_increasing) simp
    then have "(100 :: int) * 2 ^ n \<le> 100 * 2 ^ k" by (rule mult_left_mono) simp
    finally show ?thesis .
  qed
  have n: "(1018 :: nat) + 6 = 1024" by simp
  assume "1018 \<le> k"
  from aux [OF this, unfolded n] show ?thesis by (rule leD)
qed

lemma twice_delay:
  "twice (Finite (100 * 2 ^ k)) = (if k < 1017 then Finite (100 * 2 ^ Suc k) else Infinity)"
proof -
  have e: "(100 :: int) * 2 ^ k * 2 = 100 * 2 ^ Suc k" by simp
  show ?thesis
  proof (cases "k < 1017")
    case True
    then have "Suc k \<le> 1017" by simp
    from below_overflow [OF this] True show ?thesis
      unfolding twice.simps e by (simp only: if_True)
  next
    case False
    then have "1018 \<le> Suc k" by simp
    from at_overflow [OF this] False show ?thesis
      unfolding twice.simps e by (simp only: if_False)
  qed
qed

lemma doubled_delay:
  "(twice ^^ k) (Finite 100) = (if k \<le> 1017 then Finite (100 * 2 ^ k) else Infinity)"
proof (induction k)
  case 0
  show ?case by simp
next
  case (Suc k)
  have "(twice ^^ Suc k) (Finite 100) = twice ((twice ^^ k) (Finite 100))" by simp
  also have "\<dots> = twice (if k \<le> 1017 then Finite (100 * 2 ^ k) else Infinity)"
    by (simp only: Suc)
  also have "\<dots> = (if Suc k \<le> 1017 then Finite (100 * 2 ^ Suc k) else Infinity)"
  proof (cases "k \<le> 1017")
    case True
    then have "twice (if k \<le> 1017 then Finite (100 * 2 ^ k) else Infinity)
      = twice (Finite (100 * 2 ^ k))" by (simp only: if_True)
    also have "\<dots> = (if k < 1017 then Finite (100 * 2 ^ Suc k) else Infinity)"
      by (rule twice_delay)
    also have "\<dots> = (if Suc k \<le> 1017 then Finite (100 * 2 ^ Suc k) else Infinity)"
      by (simp only: Suc_le_eq)
    finally show ?thesis .
  next
    case False
    then have "\<not> Suc k \<le> 1017" by simp
    with False show ?thesis by (simp only: if_False twice.simps)
  qed
  finally show ?case .
qed

lemma success_resets:
  assumes "subscribed w" "i < length (outstanding w)"
    and "outstanding w ! i = Request (Changes hb c)"
    and "\<not> poll_fails w req"
  shows "\<exists>t w'. step (Ev_complete i req rs) w = Some (t, w') \<and> timeout w' = Finite 100"
proof -
  define v where "v = w\<lparr>outstanding := remove_nth i (outstanding w)\<rparr>"
  from assms(4) obtain p where body: "responseJSON req = Some p"
    and st: "status req = expected_status (options v)"
    by (auto simp: poll_fails_def v_def)
  from assms(1) have flags: "success (options v)" by (simp add: v_def subscribed_def)
  obtain t1 w1 where s: "options_success p rs v = (t1, w1)"
    by (cases "options_success p rs v")
  from options_success_obs [OF s] have "timeout w1 = Finite 100" by simp
  moreover have "complete_request (Changes hb c) req rs v
      = (hooks_before (options v) p True @ t1, w1)"
    using complete_changes_success [OF body st flags, of hb c rs] s by simp
  ultimately show ?thesis using assms(2,3) by (simp add: v_def)
qed

text \<open>
  Claim C3, as amended. A subscription starts with the delay at 100 ms. When a poll of
  an active subscription fails, a timer is set for the current delay, nothing is sent
  until it fires, and the delay is doubled; the cursor is not touched. The delay is a
  double, and the code puts no cap of its own on it. So from a delay of 100 (at the
  start, or after a success) the polls and timers of \<open>n\<close> failures in a row are: wait
  100, poll again with the cursor of the failed poll, wait 200, poll again, and so on:
  the delay before the retry that follows failure \<open>k + 1\<close> is \<open>100 * 2 ^ k\<close> for \<open>k\<close> up to
  1017, and \<open>Infinity\<close> from failure 1019 on. The answer to a poll that succeeds sets the
  delay back to 100. All this is for a poll that fails in that \<open>ajax\<close> calls
  \<open>options.error\<close>. When a hook of the caller throws in the completion of a poll,
  \<open>options.error\<close> is not called: no timer is set and nothing is sent, the delay and
  the cursor stay as they are, and nothing is outstanding afterwards, so that the
  subscription does not poll again. (The history has the delay that is given to
  \<open>setTimeout\<close>; how long the platform then waits is not part of it.)
\<close>

theorem retry_backoff:
  "timeout (snd (changes u s0 o0)) = Finite 100
   \<and> (run evs (snd (changes u s0 o0)) = Some (t0, w) \<and> active w
        \<and> outstanding w = [Request (Changes hb c)] \<and> poll_fails w r \<longrightarrow>
      (\<exists>t w'. step (Ev_complete 0 r rs) w = Some (t, w')
         \<and> schedule t = [SetTimeout (timeout w)] \<and> outstanding w' = [Timer (timeout w)]
         \<and> timeout w' = twice (timeout w) \<and> since w' = since w))
   \<and> (run evs (snd (changes u s0 o0)) = Some (t0, w) \<and> active w
        \<and> outstanding w = [Request (Changes hb c)] \<and> timeout w = Finite 100
        \<and> (\<forall>q \<in> set reqs. poll_fails w q) \<longrightarrow>
      (\<exists>t w'. run (retries reqs) w = Some (t, w')
         \<and> schedule t
             = concat (map (\<lambda>k. [SetTimeout (if k \<le> 1017 then Finite (100 * 2 ^ k) else Infinity),
                                  Sent (Changes hb c)])
                          [0..<length reqs])
         \<and> since w = c \<and> since w' = c
         \<and> timeout w'
             = (if length reqs \<le> 1017 then Finite (100 * 2 ^ length reqs) else Infinity)))
   \<and> (run evs (snd (changes u s0 o0)) = Some (t0, w) \<and> i < length (outstanding w)
        \<and> outstanding w ! i = Request (Changes hb c) \<and> \<not> poll_fails w req \<longrightarrow>
      (\<exists>t w'. step (Ev_complete i req rs) w = Some (t, w') \<and> timeout w' = Finite 100))
   \<and> (run evs (snd (changes u s0 o0)) = Some (t0, w)
        \<and> step (Ev_hook_throws j q k) w = Some (th, wh) \<longrightarrow>
      schedule th = [] \<and> outstanding wh = [] \<and> timeout wh = timeout w \<and> since wh = since w)"
proof (intro conjI impI)
  show "timeout (snd (changes u s0 o0)) = Finite 100"
    by (simp add: changes_def getChangesSince_eq send_def Let_def)
next
  assume h: "run evs (snd (changes u s0 o0)) = Some (t0, w) \<and> active w
        \<and> outstanding w = [Request (Changes hb c)] \<and> poll_fails w r"
  then have sub: "subscribed w" using reached_subscribed by blast
  with h have o: "outstanding w = [Request (poll_target w)]" by (auto simp: subscribed_def)
  from poll_fails_step [OF sub _ o, of r rs] h
  show "\<exists>t w'. step (Ev_complete 0 r rs) w = Some (t, w')
         \<and> schedule t = [SetTimeout (timeout w)] \<and> outstanding w' = [Timer (timeout w)]
         \<and> timeout w' = twice (timeout w) \<and> since w' = since w"
    by auto
next
  assume h: "run evs (snd (changes u s0 o0)) = Some (t0, w) \<and> active w
        \<and> outstanding w = [Request (Changes hb c)] \<and> timeout w = Finite 100
        \<and> (\<forall>q \<in> set reqs. poll_fails w q)"
  then have sub: "subscribed w" using reached_subscribed by blast
  with h have pt: "poll_target w = Changes hb c" by (auto simp: subscribed_def)
  with h have o: "outstanding w = [Request (poll_target w)]" by simp
  from pt have c: "since w = c" by (simp add: poll_target_def)
  from retries_schedule [OF sub _ o, of reqs] h obtain t where
    "run (retries reqs) w = Some (t, w\<lparr>timeout := (twice ^^ length reqs) (timeout w)\<rparr>)"
    "schedule t = backoff (poll_target w) (timeout w) (length reqs)"
    by blast
  with h pt c
  show "\<exists>t w'. run (retries reqs) w = Some (t, w')
         \<and> schedule t
             = concat (map (\<lambda>k. [SetTimeout (if k \<le> 1017 then Finite (100 * 2 ^ k) else Infinity),
                                  Sent (Changes hb c)])
                          [0..<length reqs])
         \<and> since w = c \<and> since w' = c
         \<and> timeout w'
             = (if length reqs \<le> 1017 then Finite (100 * 2 ^ length reqs) else Infinity)"
    by (simp add: backoff_formula doubled_delay)
next
  assume h: "run evs (snd (changes u s0 o0)) = Some (t0, w) \<and> i < length (outstanding w)
        \<and> outstanding w ! i = Request (Changes hb c) \<and> \<not> poll_fails w req"
  then have sub: "subscribed w" using reached_subscribed by blast
  from success_resets [OF sub, of i hb c req rs] h
  show "\<exists>t w'. step (Ev_complete i req rs) w = Some (t, w') \<and> timeout w' = Finite 100"
    by blast
next
  assume h: "run evs (snd (changes u s0 o0)) = Some (t0, w)
        \<and> step (Ev_hook_throws j q k) w = Some (th, wh)"
  then have sub: "subscribed w" using reached_subscribed by blast
  from h obtain tg where j: "j < length (outstanding w)"
    and o: "outstanding w ! j = Request tg"
    and t: "hook_throws tg q k (w\<lparr>outstanding := remove_nth j (outstanding w)\<rparr>)
              = Some (th, wh)"
    by (auto split: if_splits pending.splits)
  from subscribed_index [OF sub j] o have "j = 0" "outstanding w = [Request tg]" by auto
  with hook_throws_obs [OF t]
  show "schedule th = []" and "outstanding wh = []" and "timeout wh = timeout w"
    and "since wh = since w"
    by simp_all
qed

theorem retry_backoff_witness:
  "(\<exists>t w'. run (retries [\<lparr>status = 500, responseJSON = None\<rparr>,
                          \<lparr>status = 0, responseJSON = None\<rparr>,
                          \<lparr>status = 404, responseJSON = Some (JObj [(''error'', JStr ''not_found'')])\<rparr>])
               example_feed = Some (t, w')
      \<and> schedule t = [SetTimeout (Finite 100), Sent (Changes (JNum 10000) (JNum 10)),
                       SetTimeout (Finite 200), Sent (Changes (JNum 10000) (JNum 10)),
                       SetTimeout (Finite 400), Sent (Changes (JNum 10000) (JNum 10))]
      \<and> since w' = JNum 10 \<and> timeout w' = Finite 800)
   \<and> (\<exists>t w'. step (Ev_complete 0 \<lparr>status = 500, responseJSON = None\<rparr> []) example_feed
                = Some (t, w')
      \<and> schedule t = [SetTimeout (Finite 100)] \<and> outstanding w' = [Timer (Finite 100)]
      \<and> timeout w' = Finite 200)
   \<and> (\<exists>t w'. step (Ev_complete 0
                      \<lparr>status = 200, responseJSON = Some (JObj [(''last_seq'', JNum 11)])\<rparr> [])
                   example_feed = Some (t, w')
      \<and> timeout w' = Finite 100)
   \<and> (\<exists>w'. step (Ev_hook_throws 0
                      \<lparr>status = 500, responseJSON = Some (JObj [(''error'', JStr ''down'')])\<rparr> 0)
                 (snd (changes ''http://.touchdb./mydb/'' (JNum 10)
                         (no_options\<lparr>ajaxStart := True\<rparr>)))
              = Some ([Hook (Call_ajaxStart (JObj [(''error'', JStr ''down'')])),
                       Uncaught Thrown_by_caller], w')
      \<and> outstanding w' = [] \<and> timeout w' = Finite 100 \<and> since w' = JNum 10)"
proof -
  let ?f1 = "\<lparr>status = 500, responseJSON = None\<rparr>"
  let ?f2 = "\<lparr>status = 0, responseJSON = None\<rparr>"
  let ?f3 = "\<lparr>status = 404, responseJSON = Some (JObj [(''error'', JStr ''not_found'')])\<rparr>"
  let ?ok = "\<lparr>status = 200, responseJSON = Some (JObj [(''last_seq'', JNum 11)])\<rparr>"
  note rb = retry_backoff
    [of "''http://.touchdb./mydb/''" "JNum 10" no_options "[Ev_onChange 1, Ev_onChange 2]"
        "[Called (OnChange 1), Called (OnChange 2)]" example_feed "JNum 10000" "JNum 10"
        ?f1 "[]" "[?f1, ?f2, ?f3]" 0 ?ok]
  have a: "active example_feed"
    and o: "outstanding example_feed = [Request (Changes (JNum 10000) (JNum 10))]"
    and d: "timeout example_feed = Finite 100"
    by (simp_all add: example_feed_def)
  have f: "\<forall>q \<in> set [?f1, ?f2, ?f3]. poll_fails example_feed q"
    "poll_fails example_feed ?f1" "\<not> poll_fails example_feed ?ok"
    by (simp_all add: feed_eval)
  have n: "[0..<length [?f1, ?f2, ?f3]] = [0, 1, 2]"
    by (simp add: upt_conv_Cons)
  from rb example_feed_reached a o d f(1)
  obtain t w' where r: "run (retries [?f1, ?f2, ?f3]) example_feed = Some (t, w')"
    and s: "schedule t
             = concat (map (\<lambda>k. [SetTimeout (if k \<le> 1017 then Finite (100 * 2 ^ k) else Infinity),
                                  Sent (Changes (JNum 10000) (JNum 10))])
                          [0..<length [?f1, ?f2, ?f3]])"
    and c: "since w' = JNum 10"
    and e: "timeout w'
             = (if length [?f1, ?f2, ?f3] \<le> 1017 then Finite (100 * 2 ^ length [?f1, ?f2, ?f3])
                else Infinity)"
    by blast
  from s [unfolded n]
  have "schedule t = [SetTimeout (Finite 100), Sent (Changes (JNum 10000) (JNum 10)),
                      SetTimeout (Finite 200), Sent (Changes (JNum 10000) (JNum 10)),
                      SetTimeout (Finite 400), Sent (Changes (JNum 10000) (JNum 10))]"
    by simp
  moreover from e have "timeout w' = Finite 800" by simp
  ultimately
  have 1: "\<exists>t w'. run (retries [?f1, ?f2, ?f3]) example_feed = Some (t, w')
      \<and> schedule t = [SetTimeout (Finite 100), Sent (Changes (JNum 10000) (JNum 10)),
                       SetTimeout (Finite 200), Sent (Changes (JNum 10000) (JNum 10)),
                       SetTimeout (Finite 400), Sent (Changes (JNum 10000) (JNum 10))]
      \<and> since w' = JNum 10 \<and> timeout w' = Finite 800"
    using r c by blast
  from rb example_feed_reached a o f(2)
  have "\<exists>t w'. step (Ev_complete 0 ?f1 []) example_feed = Some (t, w')
         \<and> schedule t = [SetTimeout (timeout example_feed)]
         \<and> outstanding w' = [Timer (timeout example_feed)]
         \<and> timeout w' = twice (timeout example_feed) \<and> since w' = since example_feed"
    by blast
  with d have 2: "\<exists>t w'. step (Ev_complete 0 ?f1 []) example_feed = Some (t, w')
      \<and> schedule t = [SetTimeout (Finite 100)] \<and> outstanding w' = [Timer (Finite 100)]
      \<and> timeout w' = Finite 200"
    by auto
  have "0 < length (outstanding example_feed)"
    "outstanding example_feed ! 0 = Request (Changes (JNum 10000) (JNum 10))"
    by (simp_all add: example_feed_def)
  with rb example_feed_reached f(3)
  have 3: "\<exists>t w'. step (Ev_complete 0 ?ok []) example_feed = Some (t, w')
             \<and> timeout w' = Finite 100"
    by blast
  let ?down = "\<lparr>status = 500, responseJSON = Some (JObj [(''error'', JStr ''down'')])\<rparr>"
  let ?hooked = "snd (changes ''http://.touchdb./mydb/'' (JNum 10) (no_options\<lparr>ajaxStart := True\<rparr>))"
  let ?th = "[Hook (Call_ajaxStart (JObj [(''error'', JStr ''down'')])), Uncaught Thrown_by_caller]"
  have "\<exists>w'. step (Ev_hook_throws 0 ?down 0) ?hooked = Some (?th, w')"
    by (simp add: feed_eval hook_throws_def)
  then obtain wh where sh: "step (Ev_hook_throws 0 ?down 0) ?hooked = Some (?th, wh)" ..
  have rh: "run [] ?hooked = Some ([], ?hooked)" by simp
  have hk: "timeout ?hooked = Finite 100" "since ?hooked = JNum 10"
    by (simp_all add: feed_eval)
  from retry_backoff
    [of "''http://.touchdb./mydb/''" "JNum 10" "no_options\<lparr>ajaxStart := True\<rparr>" "[]" "[]"
        ?hooked "JNum 10000" "JNum 10" ?f1 "[]" "[]" 0 ?ok 0 ?down 0 ?th wh] rh sh
  have "outstanding wh = [] \<and> timeout wh = timeout ?hooked \<and> since wh = since ?hooked"
    by blast
  with hk sh
  have 4: "\<exists>w'. step (Ev_hook_throws 0 ?down 0) ?hooked = Some (?th, w')
      \<and> outstanding w' = [] \<and> timeout w' = Finite 100 \<and> since w' = JNum 10"
    by auto
  from 1 2 3 4 show ?thesis by blast
qed

text \<open>
  The claim as written has the delay \<open>100 * 2 ^ (n - 1)\<close> after any number \<open>n\<close> of
  failures. After 1018 failures the doubled delay has left the doubles: the timer that
  the 1019th failure in a row sets, the entry at position \<open>2 * 1018\<close> of the polls and
  timers, waits \<open>Infinity\<close>.
\<close>

theorem retry_backoff_counterexample:
  "map_option (\<lambda>r. schedule (fst r) ! 2036)
     (run (retries (replicate 1019 \<lparr>status = 500, responseJSON = None\<rparr>)) example_feed)
     = Some (SetTimeout Infinity)
   \<and> SetTimeout Infinity \<noteq> SetTimeout (Finite (100 * 2 ^ 1018))"
proof -
  let ?f = "\<lparr>status = 500, responseJSON = None\<rparr>"
  have sub: "subscribed example_feed"
    using reached_subscribed [OF example_feed_reached] .
  have a: "active example_feed"
    and o: "outstanding example_feed = [Request (poll_target example_feed)]"
    and d: "timeout example_feed = Finite 100"
    by (simp_all add: example_feed_def poll_target_def no_options_def)
  have f: "\<forall>q \<in> set (replicate 1019 ?f). poll_fails example_feed q"
    by (simp add: poll_fails_def)
  from retries_schedule [OF sub a o f] obtain t w' where
    r: "run (retries (replicate 1019 ?f)) example_feed = Some (t, w')"
    and s: "schedule t = backoff (poll_target example_feed) (timeout example_feed) 1019"
    by auto
  have "backoff (poll_target example_feed) (Finite 100) 1019 ! (2 * 1018)
          = SetTimeout ((twice ^^ 1018) (Finite 100))"
    by (rule backoff_timer) simp
  then have "schedule t ! 2036 = SetTimeout Infinity"
    using s d by (simp add: doubled_delay)
  with r show ?thesis by simp
qed

section \<open>Delivering a batch\<close>

text \<open>
  Claim C4, as amended. When a poll of an active subscription completes with the
  expected status and a batch (a JSON body whose \<open>last_seq\<close> can be read), and the
  hooks and every listener that is called return normally, the batch is passed to the
  listeners one after the other, in the order of registration, each exactly once: to
  every listener registered when the delivery starts (the listeners of \<open>w\<close>), and
  after them to those that a listener registers during the delivery. Only then is the
  next poll sent, the one request of the step, with the batch's \<open>last_seq\<close> as cursor.
  (\<open>Ev_complete\<close> is the completion in which the hooks return.)
\<close>

theorem batch_delivery:
  assumes reach: "run evs (snd (changes u s0 o0)) = Some (t0, w)"
    and i: "i < length (outstanding w)"
    and o: "outstanding w ! i = Request (Changes hb c)"
    and a: "active w"
    and st: "status req = expected_status (options w)"
    and body: "responseJSON req = Some p"
    and seq: "js_get p ''last_seq'' = Inr seq"
    and returns: "\<forall>r \<in> set rs. Throw \<notin> set r"
  shows "\<exists>t w'. step (Ev_complete i req rs) w = Some (t, w')
           \<and> invocations t = map (\<lambda>l. (l, p)) (listeners w')
           \<and> take (length (listeners w)) (listeners w') = listeners w
           \<and> (rs = [] \<longrightarrow> listeners w' = listeners w)
           \<and> (\<exists>t1. t = t1 @ [Sent (Changes hb seq)] \<and> requests t1 = [])"
proof -
  note sub = reached_subscribed [OF reach]
  from subscribed_index [OF sub i] o
  have i0: "i = 0" and ow: "outstanding w = [Request (Changes hb c)]"
    by auto
  from sub ow have pt: "poll_target w = Changes hb c" by (auto simp: subscribed_def)
  define v where "v = w\<lparr>outstanding := remove_nth i (outstanding w)\<rparr>"
  from sub have flags: "success (options v)" by (simp add: v_def subscribed_def)
  have av: "active v" using a by (simp add: v_def)
  from options_success_active [OF av seq, of rs] obtain t1 thrown w1 where
    r: "triggerListeners p rs 0 (v\<lparr>timeout := Finite 100, since := seq\<rparr>) = (t1, thrown, w1)"
    and e0: "options_success p rs v =
               (if thrown then (t1 @ [Uncaught Thrown_by_caller], w1)
                else (t1 @ [Sent (poll_target w1)],
                      w1\<lparr>outstanding := outstanding w1 @ [Request (poll_target w1)]\<rparr>))"
    by blast
  from triggerListeners_frame [OF r]
  have f: "since w1 = seq" "options w1 = options v"
    "\<exists>added. listeners w1 = listeners v @ added"
    "\<not> thrown \<longrightarrow> invocations t1 = map (\<lambda>l. (l, p)) (drop 0 (listeners w1))"
    "(\<forall>r \<in> set rs. Throw \<notin> set r) \<longrightarrow> \<not> thrown"
    "requests t1 = []"
    by simp_all
  from f(5) returns have nt: "\<not> thrown" by blast
  with f(4) have inv: "invocations t1 = map (\<lambda>l. (l, p)) (listeners w1)" by simp
  from nt e0 have e: "options_success p rs v =
      (t1 @ [Sent (poll_target w1)],
       w1\<lparr>outstanding := outstanding w1 @ [Request (poll_target w1)]\<rparr>)"
    by simp
  from f(1,2) have "poll_target w1 = Changes hb seq"
    using pt by (simp add: poll_target_def v_def)
  with e have e': "options_success p rs v =
      (t1 @ [Sent (Changes hb seq)],
       w1\<lparr>outstanding := outstanding w1 @ [Request (Changes hb seq)]\<rparr>)"
    by simp
  let ?t = "hooks_before (options v) p True @ t1 @ [Sent (Changes hb seq)]"
  let ?w = "w1\<lparr>outstanding := outstanding w1 @ [Request (Changes hb seq)]\<rparr>"
  have c: "complete_request (Changes hb c) req rs v = (?t, ?w)"
    using complete_changes_success [of req p v hb c rs] body st flags e' by (simp add: v_def)
  have s: "step (Ev_complete i req rs) w = Some (?t, ?w)"
    using i o c by (simp add: v_def)
  from f(3) obtain added where ad: "listeners w1 = listeners v @ added" by blast
  have 1: "invocations ?t = map (\<lambda>l. (l, p)) (listeners ?w)" using inv by simp
  have 2: "take (length (listeners w)) (listeners ?w) = listeners w"
    using ad by (simp add: v_def)
  have 3: "rs = [] \<longrightarrow> listeners ?w = listeners w"
  proof
    assume "rs = []"
    from triggerListeners_quiet [OF r [unfolded this]] show "listeners ?w = listeners w"
      by (simp add: v_def)
  qed
  have 4: "\<exists>t1'. ?t = t1' @ [Sent (Changes hb seq)] \<and> requests t1' = []"
  proof (intro exI conjI)
    show "?t = (hooks_before (options v) p True @ t1) @ [Sent (Changes hb seq)]" by simp
    show "requests (hooks_before (options v) p True @ t1) = []" using f(6) by simp
  qed
  from s 1 2 3 4 show ?thesis by blast
qed

theorem batch_delivery_witness:
  "\<exists>t w'. step (Ev_complete 0
                   \<lparr>status = 200, responseJSON = Some (JObj [(''last_seq'', JNum 11)])\<rparr>
                   [[OnChange 3]])
                example_feed = Some (t, w')
     \<and> listeners w' = [1, 2, 3]
     \<and> invocations t = [(1, JObj [(''last_seq'', JNum 11)]),
                         (2, JObj [(''last_seq'', JNum 11)]),
                         (3, JObj [(''last_seq'', JNum 11)])]
     \<and> (\<exists>t1. t = t1 @ [Sent (Changes (JNum 10000) (JNum 11))] \<and> requests t1 = [])"
proof -
  let ?p = "JObj [(''last_seq'', JNum 11)]"
  let ?ok = "\<lparr>status = 200, responseJSON = Some ?p\<rparr>"
  have h: "0 < length (outstanding example_feed)"
    "outstanding example_feed ! 0 = Request (Changes (JNum 10000) (JNum 10))"
    "active example_feed"
    "status ?ok = expected_status (options example_feed)"
    "responseJSON ?ok = Some ?p"
    "js_get ?p ''last_seq'' = Inr (JNum 11)"
    "\<forall>r \<in> set [[OnChange 3]]. Throw \<notin> set r"
    by (simp_all add: example_feed_def expected_status_def no_options_def)
  from batch_delivery [OF example_feed_reached h]
  obtain t w' where s: "step (Ev_complete 0 ?ok [[OnChange 3]]) example_feed = Some (t, w')"
    and inv: "invocations t = map (\<lambda>l. (l, ?p)) (listeners w')"
    and last: "\<exists>t1. t = t1 @ [Sent (Changes (JNum 10000) (JNum 11))] \<and> requests t1 = []"
    by blast
  have "step (Ev_complete 0 ?ok [[OnChange 3]]) example_feed
      = Some ([Invoked 1 ?p, Called (OnChange 3), Invoked 2 ?p, Invoked 3 ?p,
               Sent (Changes (JNum 10000) (JNum 11))],
              example_feed\<lparr>since := JNum 11, listeners := [1, 2, 3],
                           outstanding := [Request (Changes (JNum 10000) (JNum 11))]\<rparr>)"
    by (simp add: feed_eval)
  with s have l: "listeners w' = [1, 2, 3]" by auto
  with inv have "invocations t = [(1, ?p), (2, ?p), (3, ?p)]" by simp
  with s l last show ?thesis by blast
qed

text \<open>
  A listener that throws ends the delivery: \<open>$.each\<close> catches nothing, so the
  exception leaves \<open>triggerListeners\<close> and \<open>options.success\<close>. The listeners after it
  are not called with the batch, and \<open>getChangesSince\<close> is not reached: the
  subscription sends no further poll. Here the first of two listeners throws.
\<close>

theorem batch_delivery_counterexample:
  "step (Ev_complete 0
           \<lparr>status = 200, responseJSON = Some (JObj [(''last_seq'', JNum 11)])\<rparr> [[Throw]])
        example_feed
     = Some ([Invoked 1 (JObj [(''last_seq'', JNum 11)]), Uncaught Thrown_by_caller],
             example_feed\<lparr>since := JNum 11, outstanding := []\<rparr>)
   \<and> listeners example_feed = [1, 2]"
  by (simp add: feed_eval)

section \<open>The first request\<close>

text \<open>
  Claim C5, as amended. \<open>changes\<close> tests \<open>if (since)\<close>. With a cursor that is truthy
  the first request is the poll with that cursor, sent at once. With a cursor that is
  left out or falsy (\<open>0\<close>, the empty string, \<open>null\<close>), the first request is the one for
  the metadata; when its answer comes with status 200, the cursor becomes its
  \<open>update_seq\<close> and the poll with that cursor is sent then.
\<close>

theorem first_request:
  "(truthy s0 \<longrightarrow>
      fst (changes u s0 o0)
        = [Sent (Changes (case heartbeat o0 of None \<Rightarrow> JNum 10000 | Some h \<Rightarrow> h) s0)])
   \<and> (\<not> truthy s0 \<longrightarrow>
      fst (changes u s0 o0) = [Sent Info]
      \<and> (js_get info ''update_seq'' = Inr seq \<longrightarrow>
          (\<exists>w'. step (Ev_complete 0 \<lparr>status = 200, responseJSON = Some info\<rparr> rs)
                      (snd (changes u s0 o0))
                 = Some ([Sent (Changes (case heartbeat o0 of None \<Rightarrow> JNum 10000 | Some h \<Rightarrow> h)
                                        seq)], w')
             \<and> since w' = seq)))"
  by (simp add: changes_def getChangesSince_eq send_def poll_target_def complete_info
      info_success_def)

theorem first_request_witness:
  "fst (changes ''http://.touchdb./mydb/'' (JNum 7) no_options)
     = [Sent (Changes (JNum 10000) (JNum 7))]
   \<and> fst (changes ''http://.touchdb./mydb/'' JUndefined no_options) = [Sent Info]
   \<and> (\<exists>w'. step (Ev_complete 0
                    \<lparr>status = 200, responseJSON = Some (JObj [(''update_seq'', JNum 10)])\<rparr> [])
                  (snd (changes ''http://.touchdb./mydb/'' JUndefined no_options))
             = Some ([Sent (Changes (JNum 10000) (JNum 10))], w')
        \<and> since w' = JNum 10)"
  using first_request [of "JNum 7" "''http://.touchdb./mydb/''" no_options JNull JNull "[]"]
    first_request [of JUndefined "''http://.touchdb./mydb/''" no_options
      "JObj [(''update_seq'', JNum 10)]" "JNum 10" "[]"]
  by (simp add: no_options_def)

text \<open>
  The claim as written has a supplied cursor polled at once. The cursor \<open>0\<close>, the
  sequence number of a database with no change yet, is supplied and is not
  \<open>undefined\<close>; the first request is the one for the metadata all the same.
\<close>

theorem first_request_counterexample:
  "JNum 0 \<noteq> JUndefined
   \<and> fst (changes ''http://.touchdb./mydb/'' (JNum 0) no_options) = [Sent Info]"
  by (simp add: feed_eval)

section \<open>The cursor after a poll\<close>

text \<open>
  Claim C6, as amended. After a poll of an active subscription has succeeded, the
  cursor is the \<open>last_seq\<close> of the answer, whatever that value is: the code assigns it
  and compares nothing. So the cursor after the poll is at or above the cursor before
  it exactly when the server's \<open>last_seq\<close> is at or above the cursor that the poll was
  sent with.
\<close>

theorem cursor_follows_server:
  assumes reach: "run evs (snd (changes u s0 o0)) = Some (t0, w)"
    and i: "i < length (outstanding w)"
    and o: "outstanding w ! i = Request (Changes hb c)"
    and a: "active w"
    and st: "status req = expected_status (options w)"
    and body: "responseJSON req = Some p"
    and seq: "js_get p ''last_seq'' = Inr seq"
  shows "\<exists>t w'. step (Ev_complete i req rs) w = Some (t, w') \<and> since w = c \<and> since w' = seq
           \<and> (cursor_le (since w) (since w') \<longleftrightarrow> cursor_le c seq)"
proof -
  note sub = reached_subscribed [OF reach]
  from subscribed_index [OF sub i] o
  have i0: "i = 0" and ow: "outstanding w = [Request (Changes hb c)]"
    by auto
  from sub ow have pt: "poll_target w = Changes hb c" by (auto simp: subscribed_def)
  then have sc: "since w = c" by (simp add: poll_target_def)
  define v where "v = w\<lparr>outstanding := remove_nth i (outstanding w)\<rparr>"
  from sub have flags: "success (options v)" by (simp add: v_def subscribed_def)
  have av: "active v" using a by (simp add: v_def)
  from options_success_active [OF av seq, of rs] obtain t1 thrown w1 where
    r: "triggerListeners p rs 0 (v\<lparr>timeout := Finite 100, since := seq\<rparr>) = (t1, thrown, w1)"
    and e: "options_success p rs v =
               (if thrown then (t1 @ [Uncaught Thrown_by_caller], w1)
                else (t1 @ [Sent (poll_target w1)],
                      w1\<lparr>outstanding := outstanding w1 @ [Request (poll_target w1)]\<rparr>))"
    by blast
  from triggerListeners_frame [OF r] have f: "since w1 = seq" by simp
  obtain t2 w2 where s2: "options_success p rs v = (t2, w2)"
    by (cases "options_success p rs v")
  with e f have sw: "since w2 = seq" by (cases thrown) auto
  have c: "complete_request (Changes hb c) req rs v = (hooks_before (options v) p True @ t2, w2)"
    using complete_changes_success [of req p v hb c rs] body st flags s2 by (simp add: v_def)
  have s: "step (Ev_complete i req rs) w = Some (hooks_before (options v) p True @ t2, w2)"
    using i o c by (simp add: v_def)
  with sw sc show ?thesis by auto
qed

theorem cursor_follows_server_witness:
  "\<exists>t w'. step (Ev_complete 0
                   \<lparr>status = 200, responseJSON = Some (JObj [(''last_seq'', JNum 11)])\<rparr> [])
                example_feed = Some (t, w')
     \<and> since example_feed = JNum 10 \<and> since w' = JNum 11
     \<and> cursor_le (since example_feed) (since w')"
proof -
  let ?p = "JObj [(''last_seq'', JNum 11)]"
  let ?ok = "\<lparr>status = 200, responseJSON = Some ?p\<rparr>"
  have h: "0 < length (outstanding example_feed)"
    "outstanding example_feed ! 0 = Request (Changes (JNum 10000) (JNum 10))"
    "active example_feed"
    "status ?ok = expected_status (options example_feed)"
    "responseJSON ?ok = Some ?p"
    "js_get ?p ''last_seq'' = Inr (JNum 11)"
    by (simp_all add: example_feed_def expected_status_def no_options_def)
  from cursor_follows_server [OF example_feed_reached h, of "[]"]
  obtain t w' where "step (Ev_complete 0 ?ok []) example_feed = Some (t, w')"
    "since example_feed = JNum 10" "since w' = JNum 11"
    "cursor_le (since example_feed) (since w') \<longleftrightarrow> cursor_le (JNum 10) (JNum 11)"
    by blast
  then show ?thesis by auto
qed

text \<open>
  The claim as written has the cursor never go down over successful polls. A server
  whose second answer carries a smaller \<open>last_seq\<close> than its first (a database dropped
  and created again answers so) takes the cursor down from 11 to 5.
\<close>

theorem cursor_regresses_counterexample:
  "map_option (\<lambda>r. since (snd r))
     (run [Ev_complete 0
             \<lparr>status = 200, responseJSON = Some (JObj [(''last_seq'', JNum 11)])\<rparr> []]
          example_feed)
     = Some (JNum 11)
   \<and> map_option (\<lambda>r. since (snd r))
       (run [Ev_complete 0
               \<lparr>status = 200, responseJSON = Some (JObj [(''last_seq'', JNum 11)])\<rparr> [],
             Ev_complete 0
               \<lparr>status = 200, responseJSON = Some (JObj [(''last_seq'', JNum 5)])\<rparr> []]
            example_feed)
     = Some (JNum 5)
   \<and> \<not> cursor_le (JNum 11) (JNum 5)"
  by (simp add: feed_eval)

end
